theory Spec2Isabelle
  imports Main "HOL-Library.AList" "HOL-Library.Sublist"
begin

section \<open>Text and the substitution of \<open>fix_dark_mode_contrast\<close>\<close>

text \<open>
  The script reads every file as Python \<open>str\<close>: a sequence of Unicode code points.
  A code point is a natural number here, and \<open>str\<close> turns an ASCII literal into
  the text it denotes.
\<close>

type_synonym codepoint = nat
type_synonym pystr = "codepoint list"

definition str :: "string \<Rightarrow> pystr" where
  "str s = map of_char s"

text \<open>
  The regular expression of line 18 is \<^verbatim>\<open>r'dark:text-gray-700\b'\<close>: the literal
  followed by a word boundary; the replacement template is a plain literal.
\<close>

definition pattern :: pystr where
  "pattern = str ''dark:text-gray-700''"

definition replacement :: pystr where
  "replacement = str ''dark:text-gray-300''"

text \<open>
  For a \<open>str\<close> pattern, \<^verbatim>\<open>\b\<close> is the Unicode word boundary of the \<open>re\<close>
  module: a word character is an alphanumeric code point or the underscore. On ASCII
  the alphanumerics are the letters and digits; beyond ASCII they are a table of the
  Unicode database, which is not part of this repository and is the parameter \<open>ext\<close>.
\<close>

definition unicode_isalnum :: "(codepoint \<Rightarrow> bool) \<Rightarrow> codepoint \<Rightarrow> bool" where
  "unicode_isalnum ext c =
     (if c < 128 then (48 \<le> c \<and> c \<le> 57) \<or> (65 \<le> c \<and> c \<le> 90) \<or> (97 \<le> c \<and> c \<le> 122)
      else ext c)"

definition is_word :: "(codepoint \<Rightarrow> bool) \<Rightarrow> codepoint \<Rightarrow> bool" where
  "is_word ext c = (unicode_isalnum ext c \<or> c = 95)"

text \<open>
  \<^verbatim>\<open>\b\<close> holds at a position when exactly one of the character before it and
  the character after it is a word character; the start and the end of the text count
  as non-word.
\<close>

definition at_boundary :: "(codepoint \<Rightarrow> bool) \<Rightarrow> codepoint option \<Rightarrow> pystr \<Rightarrow> bool" where
  "at_boundary ext prev rest =
     ((case prev of None \<Rightarrow> False | Some c \<Rightarrow> is_word ext c) \<noteq>
      (case rest of [] \<Rightarrow> False | c # _ \<Rightarrow> is_word ext c))"

text \<open>The pattern matches at the head of \<open>s\<close>: the literal, then the boundary.\<close>

definition match_here :: "(codepoint \<Rightarrow> bool) \<Rightarrow> pystr \<Rightarrow> bool" where
  "match_here ext s =
     (take (length pattern) s = pattern \<and>
      at_boundary ext (Some (last pattern)) (drop (length pattern) s))"

text \<open>
  \<^verbatim>\<open>re.sub(r'dark:text-gray-700\b', 'dark:text-gray-300', content)\<close>: the text is
  scanned from the left; at a match the replacement is emitted and the scan goes on
  behind the match, otherwise one character is copied.
\<close>

function re_sub :: "(codepoint \<Rightarrow> bool) \<Rightarrow> pystr \<Rightarrow> pystr" where
  "re_sub ext [] = []"
| "re_sub ext (c # cs) =
     (if match_here ext (c # cs)
      then replacement @ re_sub ext (drop (length pattern) (c # cs))
      else c # re_sub ext cs)"
  by pat_completeness auto
termination
  by (relation "measure (\<lambda>(ext, s). length s)") (auto simp: pattern_def str_def)

text \<open>
  The number of replacements the scan makes, one per match it meets (what
  \<^verbatim>\<open>re.subn\<close> would count). The script itself never computes it.
\<close>

function replacements_made :: "(codepoint \<Rightarrow> bool) \<Rightarrow> pystr \<Rightarrow> nat" where
  "replacements_made ext [] = 0"
| "replacements_made ext (c # cs) =
     (if match_here ext (c # cs)
      then Suc (replacements_made ext (drop (length pattern) (c # cs)))
      else replacements_made ext cs)"
  by pat_completeness auto
termination
  by (relation "measure (\<lambda>(ext, s). length s)") (auto simp: pattern_def str_def)

section \<open>Text files: newline translation\<close>

text \<open>
  Both \<open>open\<close> calls leave \<open>newline\<close> at its default. On reading, the universal
  newlines mode turns \<^verbatim>\<open>\r\n\<close> and a lone \<^verbatim>\<open>\r\<close> into \<^verbatim>\<open>\n\<close>.
\<close>

fun universal_newlines :: "pystr \<Rightarrow> pystr" where
  "universal_newlines [] = []"
| "universal_newlines [c] = [if c = 13 then 10 else c]"
| "universal_newlines (c # d # cs) =
     (if c = 13 \<and> d = 10 then 10 # universal_newlines cs
      else if c = 13 then 10 # universal_newlines (d # cs)
      else c # universal_newlines (d # cs))"

text \<open>
  On writing, every \<^verbatim>\<open>\n\<close> becomes \<open>os.linesep\<close>. The platform is POSIX (the
  script starts with a \<open>#!/usr/bin/env\<close> line), where \<open>os.linesep\<close> is
  \<^verbatim>\<open>\n\<close>; for the same reason names are matched case-sensitively below.
\<close>

definition linesep :: pystr where
  "linesep = [10]"

definition write_newlines :: "pystr \<Rightarrow> pystr" where
  "write_newlines s = concat (map (\<lambda>c. if c = 10 then linesep else [c]) s)"

section \<open>The file system\<close>

text \<open>
  A path is the list of its components, relative to the working directory. A regular
  file has its read permission for the user running the script, what writing to it
  does, and its contents:
  strict UTF-8 decoding is one-to-one on the byte sequences it accepts, so a decodable
  file is identified with the text it decodes to (before newline translation), and
  every other file is \<open>NotUtf8\<close>. A directory lists its entries in the order in which
  it is scanned. Symbolic links and directory permissions are left out.
\<close>

type_synonym name = string
type_synonym path = "name list"

datatype bytes = Utf8 pystr | NotUtf8

text \<open>
  What writing to a regular file does. The open for writing is refused; or the open
  succeeds, which empties the file, and the write or the close then fails (disk full,
  size limit, I/O error), leaving in the file the part of the text that reached the
  disk, possibly nothing; or the text is stored. What a broken write leaves is given
  with the file: it can be any text, so that whatever a single broken write leaves is
  covered, and it is the same each time the file is written.
\<close>

datatype writing = Stores | Refused | Breaks pystr

datatype node =
    File (readable: bool) (writing: writing) (contents: bytes)
  | Dir (entries: "(name \<times> node) list")

text \<open>Names are unique within a directory, at every level.\<close>

fun wf_node :: "node \<Rightarrow> bool" where
  "wf_node (File r w b) = True"
| "wf_node (Dir es) = (distinct (map fst es) \<and> list_all (\<lambda>e. wf_node (snd e)) es)"

fun lookup :: "node \<Rightarrow> path \<Rightarrow> node option" where
  "lookup n [] = Some n"
| "lookup (File r w b) (x # xs) = None"
| "lookup (Dir es) (x # xs) = (case map_of es x of None \<Rightarrow> None | Some n \<Rightarrow> lookup n xs)"

text \<open>
  \<open>store t p n\<close> puts the node \<open>n\<close> at path \<open>p\<close>, replacing the entry of that name or
  adding one to the parent directory; it fails when the parent is not a directory.
\<close>

fun store :: "node \<Rightarrow> path \<Rightarrow> node \<Rightarrow> node option" where
  "store n [] m = Some m"
| "store (File r w b) (x # xs) m = None"
| "store (Dir es) [x] m = Some (Dir (AList.update x m es))"
| "store (Dir es) (x # y # ys) m =
     (case map_of es x of
        None \<Rightarrow> None
      | Some n \<Rightarrow>
          (case store n (y # ys) m of
             None \<Rightarrow> None
           | Some n' \<Rightarrow> Some (Dir (AList.update x n' es))))"

text \<open>
  The exceptions the script can meet: \<open>OSError\<close> (Python's \<open>IOError\<close> is the same
  class; a missing file, a refused permission and a directory in place of a file are
  subclasses of it) and \<open>UnicodeDecodeError\<close> from \<open>f.read()\<close>.
\<close>

datatype exn = OSError | UnicodeDecodeError

text \<open>A value a Python function returns; a function without \<open>return\<close> returns \<open>None\<close>.\<close>

datatype pyvalue = PyNone | PyInt int

text \<open>The files the process opened, in order, and the lines it printed.\<close>

datatype event = OpenRead path | OpenWrite path

record world =
  tree :: node
  stdout :: "string list"
  opened :: "event list"

text \<open>
  \<^verbatim>\<open>with open(file_path, 'r', encoding='utf-8') as f: content = f.read()\<close>
\<close>

definition read_text :: "path \<Rightarrow> world \<Rightarrow> (exn + pystr) \<times> world" where
  "read_text p w =
     (case lookup (tree w) p of
        None \<Rightarrow> (Inl OSError, w)
      | Some (Dir es) \<Rightarrow> (Inl OSError, w)
      | Some (File r wr b) \<Rightarrow>
          if \<not> r then (Inl OSError, w)
          else
            (case b of
               NotUtf8 \<Rightarrow> (Inl UnicodeDecodeError, w\<lparr>opened := opened w @ [OpenRead p]\<rparr>)
             | Utf8 s \<Rightarrow> (Inr (universal_newlines s), w\<lparr>opened := opened w @ [OpenRead p]\<rparr>)))"

text \<open>
  \<^verbatim>\<open>open(file_path, 'w', encoding='utf-8')\<close>: an existing file is truncated as it is
  opened, a missing one is created empty.
\<close>

definition open_write :: "path \<Rightarrow> world \<Rightarrow> (exn + unit) \<times> world" where
  "open_write p w =
     (case lookup (tree w) p of
        Some (Dir es) \<Rightarrow> (Inl OSError, w)
      | Some (File r wr b) \<Rightarrow>
          if wr = Refused then (Inl OSError, w)
          else
            (case store (tree w) p (File r wr (Utf8 [])) of
               None \<Rightarrow> (Inl OSError, w)
             | Some t \<Rightarrow> (Inr (), w\<lparr>tree := t, opened := opened w @ [OpenWrite p]\<rparr>))
      | None \<Rightarrow>
          (case store (tree w) p (File True Stores (Utf8 [])) of
             None \<Rightarrow> (Inl OSError, w)
           | Some t \<Rightarrow> (Inr (), w\<lparr>tree := t, opened := opened w @ [OpenWrite p]\<rparr>)))"

text \<open>
  \<^verbatim>\<open>f.write(content)\<close> and the close at the end of the \<open>with\<close> block, on the file
  that was opened for writing: the text is stored, or the write breaks and the file
  keeps the part that reached the disk. (The last three cases do not arise behind a
  successful open.)
\<close>

definition write_close :: "path \<Rightarrow> pystr \<Rightarrow> world \<Rightarrow> (exn + unit) \<times> world" where
  "write_close p s w =
     (case lookup (tree w) p of
        Some (File r wr b) \<Rightarrow>
          (case wr of
             Stores \<Rightarrow>
               (case store (tree w) p (File r wr (Utf8 (write_newlines s))) of
                  None \<Rightarrow> (Inl OSError, w)
                | Some t \<Rightarrow> (Inr (), w\<lparr>tree := t\<rparr>))
           | Breaks left \<Rightarrow>
               (case store (tree w) p (File r wr (Utf8 left)) of
                  None \<Rightarrow> (Inl OSError, w)
                | Some t \<Rightarrow> (Inl OSError, w\<lparr>tree := t\<rparr>))
           | Refused \<Rightarrow> (Inl OSError, w))
      | Some (Dir es) \<Rightarrow> (Inl OSError, w)
      | None \<Rightarrow> (Inl OSError, w))"

text \<open>
  \<^verbatim>\<open>with open(file_path, 'w', encoding='utf-8') as f: f.write(content)\<close>
\<close>

definition write_text :: "path \<Rightarrow> pystr \<Rightarrow> world \<Rightarrow> (exn + unit) \<times> world" where
  "write_text p s w =
     (case open_write p w of
        (Inl e, w1) \<Rightarrow> (Inl e, w1)
      | (Inr u, w1) \<Rightarrow> write_close p s w1)"

section \<open>The script\<close>

definition fix_dark_mode_contrast ::
    "(codepoint \<Rightarrow> bool) \<Rightarrow> path \<Rightarrow> world \<Rightarrow> (exn + pyvalue) \<times> world" where
  "fix_dark_mode_contrast ext file_path w =
     (case read_text file_path w of
        (Inl e, w1) \<Rightarrow> (Inl e, w1)
      | (Inr content, w1) \<Rightarrow>
          (case write_text file_path (re_sub ext content) w1 of
             (Inl e, w2) \<Rightarrow> (Inl e, w2)
           | (Inr u, w2) \<Rightarrow> (Inr PyNone, w2)))"

text \<open>
  \<^verbatim>\<open>src_dir.rglob('*.tsx')\<close>. The name pattern \<^verbatim>\<open>*.tsx\<close> matches the names that end
  in \<^verbatim>\<open>.tsx\<close>, a leading dot included. The walk yields the matching entries of a
  directory (of any kind: \<open>rglob\<close> does not ask whether an entry is a regular file),
  then those of its subdirectories in turn. A root that is not a directory, or is
  missing, yields nothing: \<open>rglob\<close> raises no error for it.
\<close>

definition fnmatch_tsx :: "name \<Rightarrow> bool" where
  "fnmatch_tsx n = suffix ''.tsx'' n"

fun rglob_dir :: "path \<Rightarrow> node \<Rightarrow> path list" where
  "rglob_dir p (File r w b) = []"
| "rglob_dir p (Dir es) =
     map (\<lambda>e. p @ [fst e]) (filter (\<lambda>e. fnmatch_tsx (fst e)) es) @
     concat (map (\<lambda>e. rglob_dir (p @ [fst e]) (snd e)) es)"

definition rglob :: "node \<Rightarrow> path \<Rightarrow> path list" where
  "rglob t root =
     (case lookup t root of
        Some (Dir es) \<Rightarrow> rglob_dir root (Dir es)
      | Some (File r w b) \<Rightarrow> []
      | None \<Rightarrow> [])"

text \<open>\<open>print\<close>, and the decimal numeral an f-string shows for \<open>len(tsx_files)\<close>.\<close>

definition print :: "string \<Rightarrow> world \<Rightarrow> world" where
  "print line w = w\<lparr>stdout := stdout w @ [line]\<rparr>"

fun decimal :: "nat \<Rightarrow> string" where
  "decimal n =
     (if n < 10 then [char_of (48 + n)]
      else decimal (n div 10) @ [char_of (48 + n mod 10)])"

text \<open>The \<open>for\<close> loop of \<open>main\<close>: an exception leaves the loop at once.\<close>

fun for_files :: "(codepoint \<Rightarrow> bool) \<Rightarrow> path list \<Rightarrow> world \<Rightarrow> (exn + unit) \<times> world" where
  "for_files ext [] w = (Inr (), w)"
| "for_files ext (file_path # rest) w =
     (case fix_dark_mode_contrast ext file_path w of
        (Inl e, w') \<Rightarrow> (Inl e, w')
      | (Inr v, w') \<Rightarrow> for_files ext rest w')"

definition src_dir :: path where
  "src_dir = [''apps'', ''frontend'', ''src'']"

definition summary_line :: "nat \<Rightarrow> string" where
  "summary_line n = ''Fixing dark mode contrast in '' @ decimal n @ '' files...''"

definition main :: "(codepoint \<Rightarrow> bool) \<Rightarrow> world \<Rightarrow> (exn + pyvalue) \<times> world" where
  "main ext w =
     (let tsx_files = rglob (tree w) src_dir;
          w1 = print (summary_line (length tsx_files)) w
      in case for_files ext tsx_files w1 of
           (Inl e, w2) \<Rightarrow> (Inl e, w2)
         | (Inr u, w2) \<Rightarrow> (Inr PyNone, print ''Dark mode contrast fixes applied!'' w2))"

text \<open>
  The exit status of the process: 0 when \<open>main\<close> returns, 1 when an exception leaves it.
\<close>

definition exit_status :: "exn + pyvalue \<Rightarrow> nat" where
  "exit_status r = (case r of Inl e \<Rightarrow> 1 | Inr v \<Rightarrow> 0)"

section \<open>Worlds and notions used to state the properties\<close>

text \<open>The regular file at a path, if there is one: its attributes and contents.\<close>

definition file_at :: "node \<Rightarrow> path \<Rightarrow> (bool \<times> writing \<times> bytes) option" where
  "file_at t p = (case lookup t p of Some (File r w b) \<Rightarrow> Some (r, w, b) | Some (Dir es) \<Rightarrow> None | None \<Rightarrow> None)"

text \<open>
  The examples below are ASCII texts, for which the table beyond ASCII is never
  consulted; they use the table that holds no code point.
\<close>

definition ascii_only :: "codepoint \<Rightarrow> bool" where
  "ascii_only c = False"

text \<open>
  A readable and writable regular file that holds the given text: writing to it
  stores what is written.
\<close>

definition plain_file :: "pystr \<Rightarrow> node" where
  "plain_file s = File True Stores (Utf8 s)"

text \<open>
  A working directory in which \<^verbatim>\<open>apps/frontend/src\<close> holds the given entries;
  nothing has been printed or opened yet.
\<close>

definition project :: "(name \<times> node) list \<Rightarrow> world" where
  "project es =
     \<lparr>tree = Dir [(''apps'', Dir [(''frontend'', Dir [(''src'', Dir es)])])],
      stdout = [], opened = []\<rparr>"

text \<open>
  The path of an entry directly in the source directory.
\<close>

definition in_src :: "name \<Rightarrow> path" where
  "in_src n = src_dir @ [n]"

text \<open>
  The source directory with the single file \<^verbatim>\<open>a.tsx\<close> that holds the given text.
\<close>

definition one_file :: "pystr \<Rightarrow> world" where
  "one_file s = project [(''a.tsx'', plain_file s)]"


text \<open>
  An empty working directory: \<^verbatim>\<open>apps/frontend/src\<close> does not exist.
\<close>

definition bare :: world where
  "bare = \<lparr>tree = Dir [], stdout = [], opened = []\<rparr>"

text \<open>
  Two files of the source directory, the first with the given text.
\<close>

definition two_files :: "pystr \<Rightarrow> world" where
  "two_files s = project [(''a.tsx'', plain_file s), (''b.tsx'', plain_file (str ''plain''))]"

text \<open>
  The source directory with \<^verbatim>\<open>a.tsx\<close>, \<^verbatim>\<open>b.ts\<close> and \<^verbatim>\<open>c.tsx\<close>.
\<close>

definition three_files :: world where
  "three_files =
     project [(''a.tsx'', plain_file (str ''dark:text-gray-700'')),
              (''b.ts'', plain_file (str ''dark:text-gray-700'')),
              (''c.tsx'', plain_file (str ''plain''))]"

text \<open>
  The number of the given paths whose file differs between two worlds: the files a
  run has actually modified.
\<close>

definition files_modified :: "world \<Rightarrow> world \<Rightarrow> path list \<Rightarrow> nat" where
  "files_modified w w' ps = length (filter (\<lambda>p. file_at (tree w') p \<noteq> file_at (tree w) p) ps)"

text \<open>
  A class token as the markup has it: a non-empty run of characters without white
  space or quotes.
\<close>

definition spec_token :: "pystr \<Rightarrow> bool" where
  "spec_token t = (t \<noteq> [] \<and> list_all (\<lambda>c. c \<noteq> 9 \<and> c \<noteq> 10 \<and> c \<noteq> 13 \<and> c \<noteq> 32 \<and> c \<noteq> 34 \<and> c \<noteq> 39) t)"

text \<open>Whether the entry at a path is a directory.\<close>

definition is_dir :: "node \<Rightarrow> path \<Rightarrow> bool" where
  "is_dir t p = (case lookup t p of Some (Dir es) \<Rightarrow> True | Some (File r wr b) \<Rightarrow> False | None \<Rightarrow> False)"


text \<open>
  The source directory with the file \<^verbatim>\<open>a.tsx\<close> and a directory named
  \<^verbatim>\<open>d.tsx\<close>.
\<close>

definition matching_directory :: world where
  "matching_directory =
     project [(''a.tsx'', plain_file (str ''plain'')),
              (''d.tsx'', Dir [(''e.ts'', plain_file (str ''plain''))])]"

section \<open>Properties of the substitution\<close>

declare re_sub.simps(2) [simp del]

declare decimal.simps [simp del]

lemma re_sub_Cons_match:
  "match_here ext (c # cs) \<Longrightarrow>
   re_sub ext (c # cs) = replacement @ re_sub ext (drop (length pattern) (c # cs))"
  by (simp add: re_sub.simps(2))

lemma re_sub_Cons_other:
  "\<not> match_here ext (c # cs) \<Longrightarrow> re_sub ext (c # cs) = c # re_sub ext cs"
  by (simp add: re_sub.simps(2))

lemma pattern_code: "pattern = [100, 97, 114, 107, 58, 116, 101, 120, 116, 45, 103, 114, 97, 121, 45, 55, 48, 48]"
  by (simp add: pattern_def str_def)

lemma replacement_code: "replacement = [100, 97, 114, 107, 58, 116, 101, 120, 116, 45, 103, 114, 97, 121, 45, 51, 48, 48]"
  by (simp add: replacement_def str_def)

lemma length_pattern: "length pattern = 18"
  by (simp add: pattern_code)

lemma length_replacement: "length replacement = 18"
  by (simp add: replacement_code)

lemma last_pattern: "last pattern = 48"
  by (simp add: pattern_code)

lemma is_word_digit0: "is_word ext 48"
  by (simp add: is_word_def unicode_isalnum_def)

lemma is_word_digit3: "is_word ext 51"
  by (simp add: is_word_def unicode_isalnum_def)

lemma at_boundary_after_pattern:
  "at_boundary ext (Some (last pattern)) t = (case t of [] \<Rightarrow> True | c # _ \<Rightarrow> \<not> is_word ext c)"
  by (simp add: at_boundary_def last_pattern is_word_digit0 split: list.split)

lemma match_here_iff:
  "match_here ext s = (\<exists>t. s = pattern @ t \<and> (case t of [] \<Rightarrow> True | c # _ \<Rightarrow> \<not> is_word ext c))"
proof
  assume m: "match_here ext s"
  then have "take 18 s = pattern" by (simp add: match_here_def length_pattern)
  then have "s = pattern @ drop 18 s" by (metis append_take_drop_id)
  with m show "\<exists>t. s = pattern @ t \<and> (case t of [] \<Rightarrow> True | c # _ \<Rightarrow> \<not> is_word ext c)"
    by (metis at_boundary_after_pattern length_pattern match_here_def)
next
  assume "\<exists>t. s = pattern @ t \<and> (case t of [] \<Rightarrow> True | c # _ \<Rightarrow> \<not> is_word ext c)"
  then show "match_here ext s"
    by (auto simp: match_here_def at_boundary_after_pattern)
qed

lemma match_here_length: "match_here ext s \<Longrightarrow> 18 \<le> length s"
  by (auto simp: match_here_iff length_pattern)

lemma match_here_hd: "match_here ext s \<Longrightarrow> s \<noteq> [] \<and> hd s = 100"
  by (auto simp: match_here_iff pattern_code)

lemma pattern_nth_not_d: "0 < d \<Longrightarrow> d < 18 \<Longrightarrow> pattern ! d \<noteq> 100"
proof -
  have "\<forall>d \<in> {1..<18}. pattern ! d \<noteq> 100"
    by (simp add: pattern_code atLeastLessThan_def atLeast_def lessThan_def Ball_def nth_Cons')
  then show "0 < d \<Longrightarrow> d < 18 \<Longrightarrow> pattern ! d \<noteq> 100" by auto
qed

lemma no_match_inside: 
  assumes "0 < d" "d < 18"
  shows "\<not> match_here ext (drop d (pattern @ t))"
proof
  assume m: "match_here ext (drop d (pattern @ t))"
  have "drop d (pattern @ t) = drop d pattern @ t" using assms by (simp add: length_pattern)
  moreover have "drop d pattern \<noteq> []" using assms by (simp add: length_pattern)
  ultimately have "hd (drop d (pattern @ t)) = pattern ! d"
    using assms by (simp add: hd_drop_conv_nth length_pattern)
  with match_here_hd[OF m] pattern_nth_not_d[OF assms] show False by simp
qed

lemma length_re_sub: "length (re_sub ext s) = length s"
proof (induction ext s rule: re_sub.induct)
  case (1 ext)
  then show ?case by simp
next
  case (2 ext c cs)
  show ?case
  proof (cases "match_here ext (c # cs)")
    case True
    with 2 match_here_length[OF True] show ?thesis
      by (simp add: re_sub_Cons_match length_pattern length_replacement)
  next
    case False
    with 2 show ?thesis by (simp add: re_sub_Cons_other)
  qed
qed

lemma replacement_nth: "i < 18 \<Longrightarrow> replacement ! i = (if i = 15 then 51 else pattern ! i)"
proof -
  have "\<forall>i \<in> {0..<18}. replacement ! i = (if i = 15 then 51 else pattern ! i)"
    by (simp add: pattern_code replacement_code atLeastLessThan_def atLeast_def lessThan_def Ball_def nth_Cons')
  then show "i < 18 \<Longrightarrow> replacement ! i = (if i = 15 then 51 else pattern ! i)" by auto
qed

lemma re_sub_match: "match_here ext (pattern @ t) \<Longrightarrow> re_sub ext (pattern @ t) = replacement @ re_sub ext t"
proof -
  assume m: "match_here ext (pattern @ t)"
  obtain c cs where p: "pattern @ t = c # cs" using match_here_hd[OF m] by (cases "pattern @ t") auto
  have "re_sub ext (c # cs) = replacement @ re_sub ext (drop (length pattern) (c # cs))"
    using m p by (simp add: re_sub_Cons_match)
  then show ?thesis by (simp flip: p)
qed

lemma re_sub_nth:
  "i < length s \<Longrightarrow>
   re_sub ext s ! i = (if 15 \<le> i \<and> match_here ext (drop (i - 15) s) then 51 else s ! i)"
proof (induction ext s arbitrary: i rule: re_sub.induct)
  case (1 ext)
  then show ?case by simp
next
  case (2 ext c cs)
  show ?case
  proof (cases "match_here ext (c # cs)")
    case True
    then obtain t where s: "c # cs = pattern @ t" by (auto simp: match_here_iff)
    have t: "drop (length pattern) (c # cs) = t" by (simp add: s)
    have r: "re_sub ext (c # cs) = replacement @ re_sub ext t"
      using True t by (simp add: re_sub_Cons_match)
    show ?thesis
    proof (cases "i < 18")
      case lt: True
      have a: "re_sub ext (c # cs) ! i = replacement ! i"
        using lt by (simp add: r nth_append length_replacement)
      have b: "(c # cs) ! i = pattern ! i"
        using lt by (simp add: s nth_append length_pattern)
      have c: "15 < i \<Longrightarrow> \<not> match_here ext (drop (i - 15) (c # cs))"
        using lt no_match_inside[of "i - 15" ext t] by (simp add: s)
      show ?thesis
      proof (cases "i = 15")
        case True
        with a \<open>match_here ext (c # cs)\<close> show ?thesis by (simp add: replacement_nth)
      next
        case False
        with a b c lt show ?thesis by (cases "15 < i") (simp_all add: replacement_nth)
      qed
    next
      case ge: False
      then have i: "i - 18 < length t" using "2.prems" by (simp add: s[symmetric] t[symmetric] length_pattern)
      have a: "re_sub ext (c # cs) ! i = re_sub ext t ! (i - 18)"
        using ge by (simp add: r nth_append length_replacement)
      have b: "(c # cs) ! i = t ! (i - 18)"
        using ge by (simp add: s nth_append length_pattern)
      have ih: "re_sub ext t ! (i - 18) =
          (if 15 \<le> i - 18 \<and> match_here ext (drop (i - 18 - 15) t) then 51 else t ! (i - 18))"
        using "2.IH"(1)[OF True, of "i - 18"] i t by simp
      show ?thesis
      proof (cases "33 \<le> i")
        case True
        then have "drop (i - 15) (c # cs) = drop (i - 18 - 15) t"
          by (simp add: s length_pattern)
        moreover have "15 \<le> i - 18" "15 \<le> i" using True by arith+
        ultimately show ?thesis using a b ih by simp
      next
        case False
        then have "\<not> match_here ext (drop (i - 15) (c # cs))"
          using ge no_match_inside[of "i - 15" ext t] by (simp add: s)
        moreover have "\<not> 15 \<le> i - 18" using False by arith
        ultimately show ?thesis using a b ih by simp
      qed
    qed
  next
    case False
    then have r: "re_sub ext (c # cs) = c # re_sub ext cs" by (rule re_sub_Cons_other)
    show ?thesis
    proof (cases i)
      case 0
      then show ?thesis by (simp add: r)
    next
      case (Suc k)
      then have k: "k < length cs" using "2.prems" by simp
      have ih: "re_sub ext cs ! k = (if 15 \<le> k \<and> match_here ext (drop (k - 15) cs) then 51 else cs ! k)"
        using "2.IH"(2)[OF False k] .
      show ?thesis
      proof (cases "15 \<le> k")
        case True
        then have "i - 15 = Suc (k - 15)" using Suc by arith
        then have "drop (i - 15) (c # cs) = drop (k - 15) cs"
          by simp
        with ih True Suc show ?thesis by (simp add: r)
      next
        case nk: False
        show ?thesis
        proof (cases "k = 14")
          case True
          with ih False Suc show ?thesis by (simp add: r)
        next
          case False
          with ih nk Suc show ?thesis by (simp add: r)
        qed
      qed
    qed
  qed
qed

lemma match_here_drop_nth:
  assumes "match_here ext (drop j s)" "i < 18"
  shows "j + i < length s" "s ! (j + i) = pattern ! i"
proof -
  from assms(1) obtain t where t: "drop j s = pattern @ t" by (auto simp: match_here_iff)
  have "18 \<le> length (drop j s)" using match_here_length[OF assms(1)] .
  then show l: "j + i < length s" using assms(2) by simp
  have "s ! (j + i) = drop j s ! i" using l by simp
  also have "\<dots> = pattern ! i" using assms(2) by (simp add: t nth_append length_pattern)
  finally show "s ! (j + i) = pattern ! i" .
qed

lemma no_overlap:
  assumes "match_here ext (drop j s)" "match_here ext (drop k s)" "j < k"
  shows "j + 18 \<le> k"
proof (rule ccontr)
  assume "\<not> j + 18 \<le> k"
  then have d: "0 < k - j" "k - j < 18" using assms(3) by arith+
  from assms(1) obtain t where t: "drop j s = pattern @ t" by (auto simp: match_here_iff)
  have "drop k s = drop (k - j) (drop j s)" using assms(3) by simp
  then have "match_here ext (drop (k - j) (pattern @ t))" using assms(2) t by simp
  with no_match_inside[OF d] show False by blast
qed

lemma re_sub_replaces:
  assumes m: "match_here ext (drop j s)"
  shows "take 18 (drop j (re_sub ext s)) = replacement"
proof (rule nth_equalityI)
  have "18 \<le> length (drop j s)" using match_here_length[OF m] .
  then show "length (take 18 (drop j (re_sub ext s))) = length replacement"
    by (simp add: length_re_sub length_replacement)
next
  fix i assume "i < length (take 18 (drop j (re_sub ext s)))"
  then have i: "i < 18" by simp
  have l: "j + i < length s" and p: "s ! (j + i) = pattern ! i"
    using match_here_drop_nth[OF m i] by simp_all
  have "take 18 (drop j (re_sub ext s)) ! i = re_sub ext s ! (j + i)"
    using i l by (simp add: length_re_sub)
  also have "\<dots> = (if 15 \<le> j + i \<and> match_here ext (drop (j + i - 15) s) then 51 else s ! (j + i))"
    using l by (rule re_sub_nth)
  also have "\<dots> = replacement ! i"
  proof (cases "i = 15")
    case True
    with m show ?thesis by (simp add: replacement_nth)
  next
    case False
    have "\<not> (15 \<le> j + i \<and> match_here ext (drop (j + i - 15) s))"
    proof
      assume a: "15 \<le> j + i \<and> match_here ext (drop (j + i - 15) s)"
      show False
      proof (cases "i < 15")
        case True
        then have "j + i - 15 < j" using a by arith
        from no_overlap[OF conjunct2[OF a] m this] a True show False by arith
      next
        case False
        with \<open>i \<noteq> 15\<close> have "j < j + i - 15" by arith
        from no_overlap[OF m conjunct2[OF a] this] i show False by arith
      qed
    qed
    then have "(if 15 \<le> j + i \<and> match_here ext (drop (j + i - 15) s) then 51 else s ! (j + i))
        = s ! (j + i)" by auto
    with p i False show ?thesis by (simp add: replacement_nth)
  qed
  finally show "take 18 (drop j (re_sub ext s)) ! i = replacement ! i" .
qed

lemma re_sub_keeps:
  assumes "i < length s" "\<forall>j. j \<le> i \<and> i < j + 18 \<longrightarrow> \<not> match_here ext (drop j s)"
  shows "re_sub ext s ! i = s ! i"
proof -
  have "\<not> (15 \<le> i \<and> match_here ext (drop (i - 15) s))"
  proof
    assume a: "15 \<le> i \<and> match_here ext (drop (i - 15) s)"
    then have "i - 15 \<le> i \<and> i < i - 15 + 18" by arith
    with assms(2) a show False by blast
  qed
  with re_sub_nth[OF assms(1), of ext] show ?thesis by simp
qed

lemma re_sub_no_match: "\<forall>j. \<not> match_here ext (drop j s) \<Longrightarrow> re_sub ext s = s"
  by (rule nth_equalityI) (simp_all add: length_re_sub re_sub_nth)

lemma pattern_nth_not_3: "i < 18 \<Longrightarrow> pattern ! i \<noteq> 51"
proof -
  have "\<forall>i \<in> {0..<18}. pattern ! i \<noteq> 51"
    by (simp add: pattern_code atLeastLessThan_def atLeast_def lessThan_def Ball_def nth_Cons')
  then show "i < 18 \<Longrightarrow> pattern ! i \<noteq> 51" by auto
qed

lemma match_here_drop_iff:
  "match_here ext (drop j s) =
     (j + 18 \<le> length s \<and> (\<forall>i<18. s ! (j + i) = pattern ! i) \<and>
      (j + 18 < length s \<longrightarrow> \<not> is_word ext (s ! (j + 18))))"
proof
  assume m: "match_here ext (drop j s)"
  then obtain t where t: "drop j s = pattern @ t"
      and b: "case t of [] \<Rightarrow> True | c # _ \<Rightarrow> \<not> is_word ext c"
    by (auto simp: match_here_iff)
  have l: "j + 18 \<le> length s" using match_here_length[OF m] by simp
  have "\<not> is_word ext (s ! (j + 18))" if "j + 18 < length s"
  proof -
    have "s ! (j + 18) = drop j s ! 18" using that by simp
    also have "\<dots> = t ! 0" by (simp add: t nth_append length_pattern)
    finally have e: "s ! (j + 18) = t ! 0" .
    have "length (drop j s) = 18 + length t" by (simp add: t length_pattern)
    then have "t \<noteq> []" using that by auto
    then show ?thesis using b e by (cases t) auto
  qed
  with l match_here_drop_nth(2)[OF m]
  show "j + 18 \<le> length s \<and> (\<forall>i<18. s ! (j + i) = pattern ! i) \<and>
      (j + 18 < length s \<longrightarrow> \<not> is_word ext (s ! (j + 18)))" by blast
next
  assume a: "j + 18 \<le> length s \<and> (\<forall>i<18. s ! (j + i) = pattern ! i) \<and>
      (j + 18 < length s \<longrightarrow> \<not> is_word ext (s ! (j + 18)))"
  have "take 18 (drop j s) = pattern"
    by (rule nth_equalityI) (use a in \<open>auto simp: length_pattern\<close>)
  then have e: "drop j s = pattern @ drop (j + 18) s"
    by (metis append_take_drop_id drop_drop add.commute)
  have "case drop (j + 18) s of [] \<Rightarrow> True | c # _ \<Rightarrow> \<not> is_word ext c"
  proof (cases "drop (j + 18) s")
    case Nil
    then show ?thesis by simp
  next
    case (Cons c cs)
    then have "j + 18 < length s" by (metis drop_eq_Nil2 list.distinct(1) not_le)
    moreover have "s ! (j + 18) = c" using Cons by (metis nth_via_drop)
    ultimately show ?thesis using a Cons by simp
  qed
  with e show "match_here ext (drop j s)" unfolding match_here_iff by blast
qed

lemma no_match_after_re_sub: "\<not> match_here ext (drop j (re_sub ext s))"
proof
  assume m: "match_here ext (drop j (re_sub ext s))"
  let ?r = "re_sub ext s"
  from m have l: "j + 18 \<le> length s"
    and p: "\<forall>i<18. ?r ! (j + i) = pattern ! i"
    and b: "j + 18 < length s \<longrightarrow> \<not> is_word ext (?r ! (j + 18))"
    by (simp_all add: match_here_drop_iff length_re_sub)
  have same: "s ! k = ?r ! k" if "k < length s" "?r ! k \<noteq> 51" for k
    using re_sub_nth[OF that(1), of ext] that(2) by (simp split: if_splits)
  have "match_here ext (drop j s)"
    unfolding match_here_drop_iff
  proof (intro conjI allI impI)
    show "j + 18 \<le> length s" by (rule l)
  next
    fix i :: nat assume i: "i < 18"
    then have "?r ! (j + i) \<noteq> 51" using p pattern_nth_not_3 by simp
    moreover have "j + i < length s" using i l by arith
    ultimately show "s ! (j + i) = pattern ! i" using same p i by simp
  next
    assume k: "j + 18 < length s"
    with b have n: "\<not> is_word ext (?r ! (j + 18))" by blast
    then have "?r ! (j + 18) \<noteq> 51" using is_word_digit3 by metis
    with same[OF k] n show "\<not> is_word ext (s ! (j + 18))" by simp
  qed
  then have "take 18 (drop j ?r) = replacement" by (rule re_sub_replaces)
  moreover have "take 18 (drop j ?r) = pattern"
    using m by (simp add: match_here_def length_pattern)
  ultimately show False by (simp add: pattern_code replacement_code)
qed


lemma occurrence_hd:
  assumes "drop j s = pattern @ t"
  shows "j < length s" "s ! j = 100"
proof -
  have "drop j s \<noteq> []" using assms by (simp add: pattern_code)
  then show l: "j < length s" by simp
  have "s ! j = hd (drop j s)" using l by (simp add: hd_drop_conv_nth)
  then show "s ! j = 100" by (simp add: assms pattern_code)
qed

lemma occurrence_apart:
  assumes o: "drop j s = pattern @ t" and m: "match_here ext (drop k s)" and i: "k \<le> i" "i < k + 18" "j \<le> i" "i < j + 18"
  shows "k = j"
proof (rule ccontr)
  assume n: "k \<noteq> j"
  show False
  proof (cases "j < k")
    case True
    then have d: "0 < k - j" "k - j < 18" using i by arith+
    have "drop k s = drop (k - j) (drop j s)" using True by simp
    then have "match_here ext (drop (k - j) (pattern @ t))" using m o by simp
    with no_match_inside[OF d] show False by blast
  next
    case False
    then have d: "j - k < 18" "0 < j - k" "j = k + (j - k)" using n i by arith+
    have "s ! (k + (j - k)) = pattern ! (j - k)" using match_here_drop_nth(2)[OF m d(1)] .
    then have "s ! j = pattern ! (j - k)" using d(3) by simp
    with occurrence_hd(2)[OF o] pattern_nth_not_d[OF d(2) d(1)] show False by simp
  qed
qed

lemma re_sub_blocked:
  assumes o: "drop j s = pattern @ c # rest" and w: "is_word ext c"
  shows "take 18 (drop j (re_sub ext s)) = pattern"
proof (rule nth_equalityI)
  have "length (drop j s) = 18 + Suc (length rest)" by (simp add: o length_pattern)
  then have l: "j + 18 < length s" by simp
  then show "length (take 18 (drop j (re_sub ext s))) = length pattern"
    by (simp add: length_re_sub length_pattern)
  fix i assume "i < length (take 18 (drop j (re_sub ext s)))"
  then have i: "i < 18" by simp
  have nm: "\<not> match_here ext (drop j s)"
    by (simp add: o match_here_def at_boundary_after_pattern w)
  have "\<forall>k. k \<le> j + i \<and> j + i < k + 18 \<longrightarrow> \<not> match_here ext (drop k s)"
  proof (intro allI impI notI)
    fix k assume k: "k \<le> j + i \<and> j + i < k + 18" and m: "match_here ext (drop k s)"
    have "k = j" using occurrence_apart[OF o m, of "j + i"] k i by simp
    with m nm show False by simp
  qed
  then have "re_sub ext s ! (j + i) = s ! (j + i)" using l i by (intro re_sub_keeps) simp_all
  moreover have "s ! (j + i) = drop j s ! i" using l i by simp
  moreover have "drop j s ! i = pattern ! i" using i by (simp add: o nth_append length_pattern)
  ultimately show "take 18 (drop j (re_sub ext s)) ! i = pattern ! i"
    using l i by (simp add: length_re_sub)
qed

lemma re_sub_not_blocked:
  assumes o: "drop j s = pattern @ c # rest" and w: "\<not> is_word ext c"
  shows "take 18 (drop j (re_sub ext s)) = replacement"
proof -
  have "match_here ext (drop j s)"
    by (simp add: o match_here_def at_boundary_after_pattern w)
  then show ?thesis by (rule re_sub_replaces)
qed

lemma short_no_match: "length s < 18 \<Longrightarrow> \<not> match_here ext (drop j s)"
  using match_here_length[of ext "drop j s"] by auto

lemma finite_matches: "finite {j. match_here ext (drop j s)}"
proof (rule finite_subset)
  show "{j. match_here ext (drop j s)} \<subseteq> {..length s}"
    using match_here_length by fastforce
qed simp

lemma replacements_made_card:
  "replacements_made ext s = card {j. match_here ext (drop j s)}"
proof (induction ext s rule: replacements_made.induct)
  case (1 ext)
  have "{j. match_here ext (drop j [])} = {}" using match_here_length by fastforce
  then show ?case by simp
next
  case (2 ext c cs)
  show ?case
  proof (cases "match_here ext (c # cs)")
    case True
    then obtain t where s: "c # cs = pattern @ t" by (auto simp: match_here_iff)
    have t: "drop (length pattern) (c # cs) = t" by (simp add: s)
    have "{j. match_here ext (drop j (c # cs))} = insert 0 ((\<lambda>j. j + 18) ` {j. match_here ext (drop j t)})"
    proof (intro set_eqI iffI)
      fix j assume "j \<in> {j. match_here ext (drop j (c # cs))}"
      then have m: "match_here ext (drop j (pattern @ t))" by (simp add: s)
      show "j \<in> insert 0 ((\<lambda>j. j + 18) ` {j. match_here ext (drop j t)})"
      proof (cases "j = 0")
        case True
        then show ?thesis by simp
      next
        case False
        with m no_match_inside[of j ext t] have ge: "18 \<le> j" by (cases "j < 18") auto
        then have "drop j (pattern @ t) = drop (j - 18) t" by (simp add: length_pattern)
        with m have "j - 18 \<in> {j. match_here ext (drop j t)}" by simp
        moreover have "j = (j - 18) + 18" using ge by simp
        ultimately show ?thesis by blast
      qed
    next
      fix j assume "j \<in> insert 0 ((\<lambda>j. j + 18) ` {j. match_here ext (drop j t)})"
      then show "j \<in> {j. match_here ext (drop j (c # cs))}"
        using True by (auto simp: s length_pattern)
    qed
    moreover have "card (insert 0 ((\<lambda>j. j + 18) ` {j. match_here ext (drop j t)})) =
        Suc (card {j. match_here ext (drop j t)})"
      by (subst card_insert_disjoint) (auto simp: finite_matches card_image inj_on_def)
    ultimately show ?thesis using True "2.IH"(1)[OF True] t by simp
  next
    case False
    have "{j. match_here ext (drop j (c # cs))} = Suc ` {j. match_here ext (drop j cs)}"
    proof (intro set_eqI iffI)
      fix j assume j: "j \<in> {j. match_here ext (drop j (c # cs))}"
      with False obtain k where "j = Suc k" by (cases j) auto
      with j show "j \<in> Suc ` {j. match_here ext (drop j cs)}" by simp
    qed auto
    then have "card {j. match_here ext (drop j (c # cs))} = card {j. match_here ext (drop j cs)}"
      by (simp add: card_image)
    with False "2.IH"(2)[OF False] show ?thesis by simp
  qed
qed

lemma replacements_made_after: "replacements_made ext (re_sub ext s) = 0"
  by (simp add: replacements_made_card no_match_after_re_sub)

lemma changed_positions:
  "length (filter (\<lambda>(a, b). a \<noteq> b) (zip s (re_sub ext s))) = replacements_made ext s"
proof (induction ext s rule: replacements_made.induct)
  case (1 ext)
  then show ?case by simp
next
  case (2 ext c cs)
  show ?case
  proof (cases "match_here ext (c # cs)")
    case True
    then obtain t where s: "c # cs = pattern @ t" by (auto simp: match_here_iff)
    have t: "drop (length pattern) (c # cs) = t" by (simp add: s)
    have r: "re_sub ext (c # cs) = replacement @ re_sub ext t"
      using True t by (simp add: re_sub_Cons_match)
    have m': "match_here ext (pattern @ t)" using True s by simp
    have "zip (c # cs) (re_sub ext (c # cs)) = zip pattern replacement @ zip t (re_sub ext t)"
      by (simp add: s re_sub_match[OF m'] length_pattern length_replacement)
    moreover have "length (filter (\<lambda>(a, b). a \<noteq> b) (zip pattern replacement)) = 1"
      by (simp add: pattern_code replacement_code)
    ultimately show ?thesis using True "2.IH"(1)[OF True] t by simp
  next
    case False
    with "2.IH"(2)[OF False] show ?thesis by (simp add: re_sub_Cons_other)
  qed
qed

section \<open>Properties of newline translation\<close>


lemma universal_newlines_id: "13 \<notin> set s \<Longrightarrow> universal_newlines s = s"
  by (induction s rule: universal_newlines.induct) auto

lemma write_newlines_id: "write_newlines s = s"
  by (induction s) (auto simp: write_newlines_def linesep_def)



section \<open>Properties of the file system\<close>

lemma lookup_File: "lookup (File r w b) q = (if q = [] then Some (File r w b) else None)"
  by (cases q) simp_all

lemma lookup_append:
  "lookup t (p @ q) = (case lookup t p of None \<Rightarrow> None | Some n \<Rightarrow> lookup n q)"
  by (induction t p rule: lookup.induct) (auto simp: lookup_File split: option.splits)

lemma lookup_store: "store t p n = Some t' \<Longrightarrow> lookup t' p = Some n"
proof (induction t p n arbitrary: t' rule: store.induct)
  case (4 es x y ys m)
  then show ?case
    by (auto simp: update_conv' split: option.splits)
qed (auto simp: update_conv')

lemma store_same: "lookup t p = Some n \<Longrightarrow> store t p n = Some t"
proof (induction t p n rule: store.induct)
  case (4 es x y ys m)
  then show ?case
    by (auto simp: update_triv split: option.splits)
qed (auto simp: update_triv split: option.splits)

lemma store_exists: "lookup t p = Some m \<Longrightarrow> \<exists>t'. store t p n = Some t'"
proof (induction t p n arbitrary: m rule: store.induct)
  case (4 es x y ys m)
  then show ?case
    by (fastforce split: option.splits)
qed auto

lemma store_frame:
  "store t p (File r' w' b') = Some t' \<Longrightarrow> lookup t p = Some (File r w b) \<Longrightarrow> q \<noteq> p \<Longrightarrow>
   file_at t' q = file_at t q"
proof (induction t p "File r' w' b'" arbitrary: t' q rule: store.induct)
  case (1 n)
  then show ?case by (cases q) (auto simp: file_at_def)
next
  case (2 r w b x xs)
  then show ?case by simp
next
  case (3 es x)
  show ?case
  proof (cases q)
    case Nil
    with 3 show ?thesis by (auto simp: file_at_def)
  next
    case (Cons z zs)
    from "3.prems" have t': "t' = Dir (AList.update x (File r' w' b') es)"
      and m: "map_of es x = Some (File r w b)"
      by (auto split: option.splits)
    show ?thesis
    proof (cases "z = x")
      case True
      with "3.prems" Cons have "zs \<noteq> []" by simp
      with Cons True m show ?thesis
        by (simp add: t' file_at_def update_conv' lookup_File)
    next
      case False
      with Cons show ?thesis
        by (simp add: t' file_at_def update_conv')
    qed
  qed
next
  case (4 es x y ys)
  show ?case
  proof (cases q)
    case Nil
    with 4 show ?thesis by (auto simp: file_at_def split: option.splits)
  next
    case (Cons z zs)
    from "4.prems" obtain c c' where c: "map_of es x = Some c"
        "store c (y # ys) (File r' w' b') = Some c'" "t' = Dir (AList.update x c' es)"
      by (auto split: option.splits)
    show ?thesis
    proof (cases "z = x")
      case True
      have "file_at c' zs = file_at c zs"
        using "4.hyps"[OF c(1) c(2)] "4.prems" c(1) Cons True by simp
      then show ?thesis using c Cons True by (simp add: file_at_def update_conv')
    next
      case False
      then show ?thesis using c Cons by (simp add: file_at_def update_conv')
    qed
  qed
qed

lemma wf_node_lookup: "wf_node t \<Longrightarrow> lookup t p = Some n \<Longrightarrow> wf_node n"
proof (induction t p arbitrary: n rule: lookup.induct)
  case (3 es x xs)
  from "3.prems" obtain c where c: "map_of es x = Some c" "lookup c xs = Some n"
    by (auto split: option.splits)
  then have "(x, c) \<in> set es" by (simp add: map_of_SomeD)
  then have "wf_node c" using "3.prems"(1) by (auto simp: list_all_iff)
  with "3.IH"[OF c(1)] c(2) show ?case by simp
qed auto

lemma rglob_dir_sound:
  "p \<in> set (rglob_dir pre n) \<Longrightarrow> \<exists>q. q \<noteq> [] \<and> p = pre @ q \<and> fnmatch_tsx (last q)"
proof (induction pre n arbitrary: p rule: rglob_dir.induct)
  case (1 pre r w b)
  then show ?case by simp
next
  case (2 pre es)
  from "2.prems" consider
      (here) e where "e \<in> set es" "fnmatch_tsx (fst e)" "p = pre @ [fst e]"
    | (below) e where "e \<in> set es" "p \<in> set (rglob_dir (pre @ [fst e]) (snd e))"
    by auto
  then show ?case
  proof cases
    case here
    then show ?thesis by (intro exI[of _ "[fst e]"]) simp
  next
    case below
    from "2.IH"[OF below] obtain q where "q \<noteq> []" "p = (pre @ [fst e]) @ q" "fnmatch_tsx (last q)"
      by blast
    then show ?thesis by (intro exI[of _ "fst e # q"]) simp
  qed
qed

lemma rglob_dir_iff:
  "wf_node n \<Longrightarrow>
   (pre @ q \<in> set (rglob_dir pre n)) = (q \<noteq> [] \<and> lookup n q \<noteq> None \<and> fnmatch_tsx (last q))"
proof (induction pre n arbitrary: q rule: rglob_dir.induct)
  case (1 pre r w b)
  then show ?case by (simp add: lookup_File)
next
  case (2 pre es)
  have d: "distinct (map fst es)" and wf: "\<And>e. e \<in> set es \<Longrightarrow> wf_node (snd e)"
    using "2.prems" by (simp_all add: list_all_iff)
  have ih: "\<And>e q'. e \<in> set es \<Longrightarrow>
      ((pre @ [fst e]) @ q' \<in> set (rglob_dir (pre @ [fst e]) (snd e))) =
      (q' \<noteq> [] \<and> lookup (snd e) q' \<noteq> None \<and> fnmatch_tsx (last q'))"
    using "2.IH" wf by blast
  have m: "\<And>e. e \<in> set es \<Longrightarrow> map_of es (fst e) = Some (snd e)"
    using d by (metis map_of_eq_Some_iff prod.collapse)
  show ?case
  proof
    assume "pre @ q \<in> set (rglob_dir pre (Dir es))"
    then consider
        (here) e where "e \<in> set es" "fnmatch_tsx (fst e)" "pre @ q = pre @ [fst e]"
      | (below) e where "e \<in> set es" "pre @ q \<in> set (rglob_dir (pre @ [fst e]) (snd e))"
      by auto
    then show "q \<noteq> [] \<and> lookup (Dir es) q \<noteq> None \<and> fnmatch_tsx (last q)"
    proof cases
      case here
      then have "q = [fst e]" by simp
      with here m[OF here(1)] show ?thesis by simp
    next
      case below
      from rglob_dir_sound[OF below(2)] obtain q' where
        q': "q' \<noteq> []" "pre @ q = (pre @ [fst e]) @ q'" by blast
      then have q: "q = fst e # q'" by simp
      have "(pre @ [fst e]) @ q' \<in> set (rglob_dir (pre @ [fst e]) (snd e))"
        using below(2) q'(2) by simp
      then have "lookup (snd e) q' \<noteq> None \<and> fnmatch_tsx (last q')"
        using ih[OF below(1)] by blast
      with q q'(1) m[OF below(1)] show ?thesis by simp
    qed
  next
    assume a: "q \<noteq> [] \<and> lookup (Dir es) q \<noteq> None \<and> fnmatch_tsx (last q)"
    then obtain k q' where q: "q = k # q'" by (cases q) auto
    with a obtain c where c: "map_of es k = Some c" "lookup c q' \<noteq> None"
      by (auto split: option.splits)
    then have e: "(k, c) \<in> set es" by (simp add: map_of_SomeD)
    show "pre @ q \<in> set (rglob_dir pre (Dir es))"
    proof (cases "q' = []")
      case True
      with a q e show ?thesis by force
    next
      case False
      then have "(pre @ [k]) @ q' \<in> set (rglob_dir (pre @ [k]) c)"
        using ih[OF e, of q'] c a q by simp
      with e show ?thesis by (force simp: q)
    qed
  qed
qed

lemma rglob_sound:
  "p \<in> set (rglob t root) \<Longrightarrow> \<exists>q. q \<noteq> [] \<and> p = root @ q \<and> fnmatch_tsx (last q)"
  by (auto simp: rglob_def dest: rglob_dir_sound split: option.splits node.splits)

lemma rglob_iff:
  assumes "wf_node t"
  shows "(p \<in> set (rglob t root)) =
         (\<exists>q. p = root @ q \<and> q \<noteq> [] \<and> lookup t p \<noteq> None \<and> fnmatch_tsx (last q))"
proof (cases "lookup t root")
  case None
  then show ?thesis by (auto simp: rglob_def lookup_append)
next
  case (Some n)
  show ?thesis
  proof (cases n)
    case (File r w b)
    with Some show ?thesis by (auto simp: rglob_def lookup_append lookup_File)
  next
    case (Dir es)
    have wf: "wf_node (Dir es)" using wf_node_lookup[OF assms Some] Dir by simp
    have r: "rglob t root = rglob_dir root (Dir es)" using Some Dir by (simp add: rglob_def)
    show ?thesis
    proof
      assume p: "p \<in> set (rglob t root)"
      then obtain q where q: "p = root @ q" using rglob_sound by blast
      with p r rglob_dir_iff[OF wf, of root q] Some Dir
      show "\<exists>q. p = root @ q \<and> q \<noteq> [] \<and> lookup t p \<noteq> None \<and> fnmatch_tsx (last q)"
        by (auto simp: lookup_append)
    next
      assume "\<exists>q. p = root @ q \<and> q \<noteq> [] \<and> lookup t p \<noteq> None \<and> fnmatch_tsx (last q)"
      then obtain q where "p = root @ q" "q \<noteq> []" "lookup t p \<noteq> None" "fnmatch_tsx (last q)"
        by blast
      with r rglob_dir_iff[OF wf, of root q] Some Dir
      show "p \<in> set (rglob t root)" by (auto simp: lookup_append)
    qed
  qed
qed

lemma store_store: "store t p n = Some t' \<Longrightarrow> store t' p m = store t p m"
proof (induction t p n arbitrary: t' rule: store.induct)
  case (4 es x y ys n)
  from "4.prems" obtain c c' where c: "map_of es x = Some c"
      "store c (y # ys) n = Some c'" "t' = Dir (AList.update x c' es)"
    by (auto split: option.splits)
  have "store c' (y # ys) m = store c (y # ys) m" using "4.IH"[OF c(1) c(2)] .
  then show ?case using c by (simp add: update_conv' split: option.splits)
qed auto


lemma store_is_dir:
  "store t p (File r' w' b') = Some t' \<Longrightarrow> lookup t p = Some (File r w b) \<Longrightarrow>
   is_dir t' q = is_dir t q"
proof (induction t p "File r' w' b'" arbitrary: t' q rule: store.induct)
  case (1 n)
  then show ?case by (cases q) (auto simp: is_dir_def)
next
  case (2 r w b x xs)
  then show ?case by simp
next
  case (3 es x)
  from "3.prems" have t': "t' = Dir (AList.update x (File r' w' b') es)"
    and m: "map_of es x = Some (File r w b)"
    by (auto split: option.splits)
  show ?case
  proof (cases q)
    case Nil
    then show ?thesis by (simp add: t' is_dir_def)
  next
    case (Cons z zs)
    show ?thesis
    proof (cases "z = x")
      case True
      with Cons m show ?thesis
        by (simp add: t' is_dir_def update_conv' lookup_File)
    next
      case False
      with Cons show ?thesis
        by (simp add: t' is_dir_def update_conv')
    qed
  qed
next
  case (4 es x y ys)
  from "4.prems" obtain c c' where c: "map_of es x = Some c"
      "store c (y # ys) (File r' w' b') = Some c'" "t' = Dir (AList.update x c' es)"
    by (auto split: option.splits)
  show ?case
  proof (cases q)
    case Nil
    then show ?thesis by (simp add: c is_dir_def)
  next
    case (Cons z zs)
    show ?thesis
    proof (cases "z = x")
      case True
      have "is_dir c' zs = is_dir c zs"
        using "4.hyps"[OF c(1) c(2)] "4.prems" c(1) by simp
      then show ?thesis using c Cons True by (simp add: is_dir_def update_conv')
    next
      case False
      then show ?thesis using c Cons by (simp add: is_dir_def update_conv')
    qed
  qed
qed

section \<open>Properties of \<open>fix_dark_mode_contrast\<close> and \<open>main\<close>\<close>

lemma fix_cases:
  "fix_dark_mode_contrast ext p w =
    (case lookup (tree w) p of
       None \<Rightarrow> (Inl OSError, w)
     | Some (Dir es) \<Rightarrow> (Inl OSError, w)
     | Some (File r wr b) \<Rightarrow>
         if \<not> r then (Inl OSError, w)
         else
           (case b of
              NotUtf8 \<Rightarrow> (Inl UnicodeDecodeError, w\<lparr>opened := opened w @ [OpenRead p]\<rparr>)
            | Utf8 s \<Rightarrow>
                (case wr of
                   Refused \<Rightarrow> (Inl OSError, w\<lparr>opened := opened w @ [OpenRead p]\<rparr>)
                 | Breaks left \<Rightarrow>
                     (Inl OSError,
                      w\<lparr>tree := the (store (tree w) p (File r wr (Utf8 left))),
                        opened := opened w @ [OpenRead p, OpenWrite p]\<rparr>)
                 | Stores \<Rightarrow>
                     (Inr PyNone,
                      w\<lparr>tree := the (store (tree w) p
                          (File r wr (Utf8 (write_newlines (re_sub ext (universal_newlines s)))))),
                        opened := opened w @ [OpenRead p, OpenWrite p]\<rparr>))))"
proof (cases "lookup (tree w) p")
  case None
  then show ?thesis by (simp add: fix_dark_mode_contrast_def read_text_def)
next
  case (Some n)
  show ?thesis
  proof (cases n)
    case (Dir es)
    with Some show ?thesis by (simp add: fix_dark_mode_contrast_def read_text_def)
  next
    case (File r wr b)
    note l = Some[unfolded File]
    show ?thesis
    proof (cases "r \<and> (\<exists>s. b = Utf8 s) \<and> wr \<noteq> Refused")
      case False
      with l show ?thesis
        by (cases b; cases wr)
          (auto simp: fix_dark_mode_contrast_def read_text_def write_text_def open_write_def)
    next
      case True
      then obtain s where b: "b = Utf8 s" and r: "r" and wr: "wr \<noteq> Refused" by blast
      obtain t0 where t0: "store (tree w) p (File r wr (Utf8 [])) = Some t0"
        using store_exists[OF l] by blast
      have l0: "lookup t0 p = Some (File r wr (Utf8 []))" by (rule lookup_store[OF t0])
      have ss: "store t0 p m = store (tree w) p m" for m by (rule store_store[OF t0])
      obtain t1 where t1: "store (tree w) p m = Some (t1 m)" for m
        using store_exists[OF l] by metis
      have o: "open_write p (w\<lparr>opened := opened w @ [OpenRead p]\<rparr>) =
          (Inr (), w\<lparr>tree := t0, opened := opened w @ [OpenRead p, OpenWrite p]\<rparr>)"
        using l wr t0 by (simp add: open_write_def)
      show ?thesis
        using l b r wr o l0 ss t1
        by (cases wr) (simp_all add: fix_dark_mode_contrast_def read_text_def write_text_def
            write_close_def)
    qed
  qed
qed

lemma fix_readable_writable:
  assumes "lookup (tree w) p = Some (File True Stores (Utf8 s))"
  shows "\<exists>t'. store (tree w) p
            (File True Stores (Utf8 (write_newlines (re_sub ext (universal_newlines s))))) = Some t' \<and>
          fix_dark_mode_contrast ext p w =
            (Inr PyNone, w\<lparr>tree := t', opened := opened w @ [OpenRead p, OpenWrite p]\<rparr>)"
proof -
  obtain t' where t': "store (tree w) p
      (File True Stores (Utf8 (write_newlines (re_sub ext (universal_newlines s))))) = Some t'"
    using store_exists[OF assms] by blast
  then show ?thesis
    using assms by (simp add: fix_cases)
qed



lemma fix_Inr:
  assumes "fst (fix_dark_mode_contrast ext p w) = Inr v"
  shows "v = PyNone \<and> (\<exists>s. lookup (tree w) p = Some (File True Stores (Utf8 s)))"
  using assms
  by (auto simp: fix_cases
      split: option.splits node.splits bytes.splits writing.splits if_splits)


lemma fix_stdout: "stdout (snd (fix_dark_mode_contrast ext p w)) = stdout w"
  by (auto simp: fix_cases
      split: option.splits node.splits bytes.splits writing.splits if_splits)

lemma fix_opened:
  "\<exists>es. opened (snd (fix_dark_mode_contrast ext p w)) = opened w @ es \<and>
        set es \<subseteq> {OpenRead p, OpenWrite p}"
  by (auto simp: fix_cases
      split: option.splits node.splits bytes.splits writing.splits if_splits)

lemma fix_tree:
  "tree (snd (fix_dark_mode_contrast ext p w)) = tree w \<or>
   (\<exists>r wr b b' t'. lookup (tree w) p = Some (File r wr b) \<and>
      store (tree w) p (File r wr b') = Some t' \<and>
      tree (snd (fix_dark_mode_contrast ext p w)) = t')"
proof (cases "lookup (tree w) p")
  case None
  then show ?thesis by (simp add: fix_cases)
next
  case (Some n)
  show ?thesis
  proof (cases n)
    case (Dir es)
    with Some show ?thesis by (simp add: fix_cases)
  next
    case (File r wr b)
    note l = Some[unfolded File]
    obtain t1 where t1: "store (tree w) p m = Some (t1 m)" for m
      using store_exists[OF l] by metis
    show ?thesis
      using l t1
      by (cases b; cases wr; cases r) (auto simp: fix_cases)
  qed
qed

lemma fix_frame:
  assumes "q \<noteq> p"
  shows "file_at (tree (snd (fix_dark_mode_contrast ext p w))) q = file_at (tree w) q"
  using fix_tree[of ext p w]
proof
  assume "tree (snd (fix_dark_mode_contrast ext p w)) = tree w"
  then show ?thesis by simp
next
  assume "\<exists>r wr b b' t'. lookup (tree w) p = Some (File r wr b) \<and>
      store (tree w) p (File r wr b') = Some t' \<and>
      tree (snd (fix_dark_mode_contrast ext p w)) = t'"
  then obtain r wr b b' t' where l: "lookup (tree w) p = Some (File r wr b)"
    and t': "store (tree w) p (File r wr b') = Some t'"
    and e: "tree (snd (fix_dark_mode_contrast ext p w)) = t'" by blast
  show ?thesis using store_frame[OF t' l assms] by (simp add: e)
qed

lemma fix_result:
  assumes "lookup (tree w) p = Some (File True Stores (Utf8 s))"
  shows "fst (fix_dark_mode_contrast ext p w) = Inr PyNone"
    and "lookup (tree (snd (fix_dark_mode_contrast ext p w))) p =
          Some (File True Stores (Utf8 (re_sub ext (universal_newlines s))))"
    and "opened (snd (fix_dark_mode_contrast ext p w)) = opened w @ [OpenRead p, OpenWrite p]"
    and "stdout (snd (fix_dark_mode_contrast ext p w)) = stdout w"
proof -
  from fix_readable_writable[OF assms, of ext] obtain t' where
    t': "store (tree w) p
          (File True Stores (Utf8 (write_newlines (re_sub ext (universal_newlines s))))) = Some t'"
    and f: "fix_dark_mode_contrast ext p w =
            (Inr PyNone, w\<lparr>tree := t', opened := opened w @ [OpenRead p, OpenWrite p]\<rparr>)"
    by blast
  show "fst (fix_dark_mode_contrast ext p w) = Inr PyNone" by (simp add: f)
  show "lookup (tree (snd (fix_dark_mode_contrast ext p w))) p =
          Some (File True Stores (Utf8 (re_sub ext (universal_newlines s))))"
    using lookup_store[OF t'] by (simp add: f write_newlines_id)
  show "opened (snd (fix_dark_mode_contrast ext p w)) = opened w @ [OpenRead p, OpenWrite p]"
    by (simp add: f)
  show "stdout (snd (fix_dark_mode_contrast ext p w)) = stdout w" by (simp add: f)
qed




lemma for_files_stdout: "stdout (snd (for_files ext ps w)) = stdout w"
proof (induction ps arbitrary: w)
  case Nil
  then show ?case by simp
next
  case (Cons p ps)
  show ?case
  proof (cases "fix_dark_mode_contrast ext p w")
    case (Pair r w')
    then have "stdout w' = stdout w" using fix_stdout[of ext p w] by simp
    with Pair Cons show ?thesis by (cases r) simp_all
  qed
qed

lemma for_files_frame:
  "q \<notin> set ps \<Longrightarrow> file_at (tree (snd (for_files ext ps w))) q = file_at (tree w) q"
proof (induction ps arbitrary: w)
  case Nil
  then show ?case by simp
next
  case (Cons p ps)
  show ?case
  proof (cases "fix_dark_mode_contrast ext p w")
    case (Pair r w')
    then have "file_at (tree w') q = file_at (tree w) q"
      using fix_frame[of q p ext w] Cons.prems by simp
    with Pair Cons show ?thesis by (cases r) simp_all
  qed
qed

lemma for_files_opened:
  "\<exists>es. opened (snd (for_files ext ps w)) = opened w @ es \<and>
        set es \<subseteq> OpenRead ` set ps \<union> OpenWrite ` set ps"
proof (induction ps arbitrary: w)
  case Nil
  then show ?case by simp
next
  case (Cons p ps)
  show ?case
  proof (cases "fix_dark_mode_contrast ext p w")
    case (Pair r w')
    then obtain es where es: "opened w' = opened w @ es" "set es \<subseteq> {OpenRead p, OpenWrite p}"
      using fix_opened[of ext p w] by auto
    show ?thesis
    proof (cases r)
      case (Inl e)
      with Pair es show ?thesis by auto
    next
      case (Inr v)
      from Cons.IH[of w'] obtain fs where
        fs: "opened (snd (for_files ext ps w')) = opened w' @ fs"
            "set fs \<subseteq> OpenRead ` set ps \<union> OpenWrite ` set ps" by blast
      have "opened (snd (for_files ext (p # ps) w)) = opened w @ (es @ fs)"
        using Pair Inr es fs by simp
      moreover have "set (es @ fs) \<subseteq> OpenRead ` set (p # ps) \<union> OpenWrite ` set (p # ps)"
        using es fs by auto
      ultimately show ?thesis by blast
    qed
  qed
qed


lemma main_unfold:
  "main ext w =
     (case for_files ext (rglob (tree w) src_dir)
             (print (summary_line (length (rglob (tree w) src_dir))) w) of
        (Inl e, w2) \<Rightarrow> (Inl e, w2)
      | (Inr u, w2) \<Rightarrow> (Inr PyNone, print ''Dark mode contrast fixes applied!'' w2))"
  by (simp add: main_def Let_def)


lemma main_Inl:
  assumes "fst (for_files ext (rglob (tree w) src_dir)
             (print (summary_line (length (rglob (tree w) src_dir))) w)) = Inl e"
  shows "main ext w = (Inl e, snd (for_files ext (rglob (tree w) src_dir)
             (print (summary_line (length (rglob (tree w) src_dir))) w)))"
  using assms by (auto simp: main_unfold split: prod.splits sum.splits)

lemma main_no_files:
  assumes "rglob (tree w) src_dir = []"
  shows "main ext w =
      (Inr PyNone, w\<lparr>stdout := stdout w @ [summary_line 0, ''Dark mode contrast fixes applied!'']\<rparr>)"
  using assms by (simp add: main_unfold print_def)

lemma main_tree_opened:
  "tree (snd (main ext w)) =
     tree (snd (for_files ext (rglob (tree w) src_dir)
                  (print (summary_line (length (rglob (tree w) src_dir))) w)))"
  "opened (snd (main ext w)) =
     opened (snd (for_files ext (rglob (tree w) src_dir)
                  (print (summary_line (length (rglob (tree w) src_dir))) w)))"
  by (auto simp: main_unfold print_def split: prod.splits sum.splits)

lemma main_frame:
  assumes "p \<notin> set (rglob (tree w) src_dir)"
  shows "file_at (tree (snd (main ext w))) p = file_at (tree w) p"
    and "(OpenRead p \<in> set (opened (snd (main ext w)))) = (OpenRead p \<in> set (opened w))"
    and "(OpenWrite p \<in> set (opened (snd (main ext w)))) = (OpenWrite p \<in> set (opened w))"
proof -
  let ?w1 = "print (summary_line (length (rglob (tree w) src_dir))) w"
  show "file_at (tree (snd (main ext w))) p = file_at (tree w) p"
    using for_files_frame[OF assms, of ext ?w1] by (simp add: main_tree_opened print_def)
  from for_files_opened[of ext "rglob (tree w) src_dir" ?w1] obtain es where
    es: "opened (snd (main ext w)) = opened w @ es"
        "set es \<subseteq> OpenRead ` set (rglob (tree w) src_dir) \<union> OpenWrite ` set (rglob (tree w) src_dir)"
    by (auto simp: main_tree_opened print_def)
  from es(2) assms have "OpenRead p \<notin> set es" "OpenWrite p \<notin> set es" by auto
  then show "(OpenRead p \<in> set (opened (snd (main ext w)))) = (OpenRead p \<in> set (opened w))"
    and "(OpenWrite p \<in> set (opened (snd (main ext w)))) = (OpenWrite p \<in> set (opened w))"
    using es(1) by auto
qed

lemma fix_is_dir: "is_dir (tree (snd (fix_dark_mode_contrast ext p w))) q = is_dir (tree w) q"
  using fix_tree[of ext p w]
proof
  assume "tree (snd (fix_dark_mode_contrast ext p w)) = tree w"
  then show ?thesis by simp
next
  assume "\<exists>r wr b b' t'. lookup (tree w) p = Some (File r wr b) \<and>
      store (tree w) p (File r wr b') = Some t' \<and>
      tree (snd (fix_dark_mode_contrast ext p w)) = t'"
  then obtain r wr b b' t' where l: "lookup (tree w) p = Some (File r wr b)"
    and t': "store (tree w) p (File r wr b') = Some t'"
    and e: "tree (snd (fix_dark_mode_contrast ext p w)) = t'" by blast
  show ?thesis using store_is_dir[OF t' l] by (simp add: e)
qed

lemma fix_dir_fails: "is_dir (tree w) p \<Longrightarrow> fix_dark_mode_contrast ext p w = (Inl OSError, w)"
  by (auto simp: fix_cases is_dir_def split: option.splits node.splits)

lemma for_files_hits_dir:
  "p \<in> set ps \<Longrightarrow> is_dir (tree w) p \<Longrightarrow> \<exists>e. fst (for_files ext ps w) = Inl e"
proof (induction ps arbitrary: w)
  case Nil
  then show ?case by simp
next
  case (Cons a ps)
  show ?case
  proof (cases "fix_dark_mode_contrast ext a w")
    case (Pair r w')
    show ?thesis
    proof (cases r)
      case (Inl e)
      with Pair show ?thesis by simp
    next
      case (Inr v)
      have "a \<noteq> p" using fix_dir_fails[OF Cons.prems(2), of ext] Pair Inr by auto
      with Cons.prems have "p \<in> set ps" by simp
      moreover have "is_dir (tree w') p"
        using fix_is_dir[of ext a w p] Pair Cons.prems(2) by simp
      ultimately show ?thesis using Cons.IH[of w'] Pair Inr by simp
    qed
  qed
qed


section \<open>The claims\<close>

subsection \<open>C1: token boundaries\<close>

text \<open>
  C1 as stated does not hold: a longer token that starts with the target's characters
  is rewritten when it goes on with a character that is not a word character. The class
  \<^verbatim>\<open>dark:text-gray-700/75\<close> is one token, longer than the target, and the substitution
  turns it into \<^verbatim>\<open>dark:text-gray-300/75\<close>.
\<close>

theorem re_sub_longer_token_counterexample:
  "spec_token (str ''dark:text-gray-700/75'') \<and>
   prefix pattern (str ''dark:text-gray-700/75'') \<and>
   str ''dark:text-gray-700/75'' \<noteq> pattern \<and>
   re_sub ascii_only (str ''dark:text-gray-700/75'') = str ''dark:text-gray-300/75'' \<and>
   str ''dark:text-gray-300/75'' \<noteq> str ''dark:text-gray-700/75''"
  by (intro conjI; code_simp)

text \<open>
  C1, amended. For every input text: the result has the length of the input; every
  occurrence of \<^verbatim>\<open>dark:text-gray-700\<close> that is not immediately followed by a word
  character (at any position \<open>j\<close>) is replaced by \<^verbatim>\<open>dark:text-gray-300\<close>; every
  character outside these occurrences is unchanged, so a longer token that goes on with
  a word character, such as \<^verbatim>\<open>dark:text-gray-7000\<close>, is left as it is. A match is the
  literal followed by the end of the text or by a character that is not a word
  character. The text with \<^verbatim>\<open>dark:text-gray-700\<close> on one line and
  \<^verbatim>\<open>dark:text-gray-7000\<close> on the next yields \<^verbatim>\<open>dark:text-gray-300\<close> on the first
  line and an unchanged second line.
\<close>

theorem re_sub_respects_word_boundary:
  "length (re_sub ext s) = length s \<and>
   (match_here ext (drop j s) \<longrightarrow>
      take (length pattern) (drop j (re_sub ext s)) = replacement) \<and>
   (i < length s \<and> \<not> (\<exists>k. k \<le> i \<and> i < k + length pattern \<and> match_here ext (drop k s)) \<longrightarrow>
      re_sub ext s ! i = s ! i) \<and>
   match_here ext u =
     (\<exists>t. u = pattern @ t \<and> (case t of [] \<Rightarrow> True | c # cs \<Rightarrow> \<not> is_word ext c)) \<and>
   re_sub ext (str ''dark:text-gray-700'' @ [10] @ str ''dark:text-gray-7000'') =
     str ''dark:text-gray-300'' @ [10] @ str ''dark:text-gray-7000''"
proof (intro conjI impI)
  show "length (re_sub ext s) = length s" by (rule length_re_sub)
next
  assume "match_here ext (drop j s)"
  then show "take (length pattern) (drop j (re_sub ext s)) = replacement"
    using re_sub_replaces by (simp add: length_pattern)
next
  assume a: "i < length s \<and> \<not> (\<exists>k. k \<le> i \<and> i < k + length pattern \<and> match_here ext (drop k s))"
  then have "\<forall>k. k \<le> i \<and> i < k + 18 \<longrightarrow> \<not> match_here ext (drop k s)"
    by (simp add: length_pattern)
  with a show "re_sub ext s ! i = s ! i" using re_sub_keeps by blast
next
  show "match_here ext u =
     (\<exists>t. u = pattern @ t \<and> (case t of [] \<Rightarrow> True | c # cs \<Rightarrow> \<not> is_word ext c))"
    by (rule match_here_iff)
next
  show "re_sub ext (str ''dark:text-gray-700'' @ [10] @ str ''dark:text-gray-7000'') =
     str ''dark:text-gray-300'' @ [10] @ str ''dark:text-gray-7000''"
    by code_simp
qed

text \<open>
  The occurrence at position 2 of \<^verbatim>\<open>a dark:text-gray-700 b\<close> is replaced, and the
  digit 7 of \<^verbatim>\<open>dark:text-gray-7000\<close>, which lies in no match, is kept.
\<close>

theorem re_sub_respects_word_boundary_witness:
  "match_here ascii_only (drop 2 (str ''a dark:text-gray-700 b'')) \<and>
   take (length pattern) (drop 2 (re_sub ascii_only (str ''a dark:text-gray-700 b''))) = replacement \<and>
   15 < length (str ''dark:text-gray-7000'') \<and>
   \<not> (\<exists>k. k \<le> 15 \<and> 15 < k + length pattern \<and>
         match_here ascii_only (drop k (str ''dark:text-gray-7000''))) \<and>
   re_sub ascii_only (str ''dark:text-gray-7000'') ! 15 = str ''dark:text-gray-7000'' ! 15 \<and>
   str ''dark:text-gray-7000'' ! 15 = of_char CHR ''7''"
proof -
  let ?s = "str ''dark:text-gray-7000''"
  have a: "match_here ascii_only (drop 2 (str ''a dark:text-gray-700 b''))"
    by code_simp
  have b: "15 < length ?s" by code_simp
  have c: "\<not> (\<exists>k. k \<le> 15 \<and> 15 < k + length pattern \<and> match_here ascii_only (drop k ?s))"
  proof
    assume "\<exists>k. k \<le> 15 \<and> 15 < k + length pattern \<and> match_here ascii_only (drop k ?s)"
    then obtain k where k: "match_here ascii_only (drop k ?s)" by blast
    have l: "length ?s = 19" by code_simp
    from match_here_length[OF k] l have "k \<le> 1" by simp
    then have "k = 0 \<or> k = 1" by arith
    moreover have "\<not> match_here ascii_only (drop 0 ?s)" by code_simp
    moreover have "\<not> match_here ascii_only (drop 1 ?s)" by code_simp
    ultimately show False using k by blast
  qed
  have d: "?s ! 15 = of_char CHR ''7''" by code_simp
  note t1 = re_sub_respects_word_boundary[of ascii_only "str ''a dark:text-gray-700 b''" 2]
  note t2 = re_sub_respects_word_boundary[of ascii_only ?s _ 15]
  from t1 a have e: "take (length pattern) (drop 2 (re_sub ascii_only (str ''a dark:text-gray-700 b''))) =
      replacement" by blast
  from t2 b c have f: "re_sub ascii_only ?s ! 15 = ?s ! 15" by blast
  from a b c d e f show ?thesis by blast
qed

subsection \<open>C2: a failing file\<close>




subsection \<open>C3: a missing root directory\<close>

text \<open>
  C3 as stated does not hold: \<open>rglob\<close> raises nothing for a root that does not
  exist. In an empty working directory the enumeration is empty, both lines are
  printed, \<open>main\<close> returns and the exit status is 0.
\<close>

theorem main_missing_root_counterexample:
  "lookup (tree bare) src_dir = None \<and>
   rglob (tree bare) src_dir = [] \<and>
   main ascii_only bare =
     (Inr PyNone,
      \<lparr>tree = Dir [],
       stdout = [''Fixing dark mode contrast in 0 files...'', ''Dark mode contrast fixes applied!''],
       opened = []\<rparr>) \<and>
   exit_status (fst (main ascii_only bare)) = 0"
  by (intro conjI; code_simp)

text \<open>
  C3, amended. If the root directory does not exist, the enumeration raises no error
  and is the empty sequence, exactly as when the root exists and nothing below it has a
  matching name. In both cases no file is touched, the two lines are printed with a
  count of 0, \<open>main\<close> returns and the process ends with exit status 0.
\<close>

theorem main_without_files:
  assumes "lookup (tree w) src_dir = None \<or>
           (wf_node (tree w) \<and>
            \<not> (\<exists>q. q \<noteq> [] \<and> lookup (tree w) (src_dir @ q) \<noteq> None \<and> fnmatch_tsx (last q)))"
  shows "rglob (tree w) src_dir = [] \<and>
         main ext w =
           (Inr PyNone,
            w\<lparr>stdout := stdout w @ [summary_line 0, ''Dark mode contrast fixes applied!'']\<rparr>) \<and>
         exit_status (fst (main ext w)) = 0"
proof -
  have e: "rglob (tree w) src_dir = []"
    using assms
  proof
    assume "lookup (tree w) src_dir = None"
    then show ?thesis by (simp add: rglob_def)
  next
    assume a: "wf_node (tree w) \<and>
            \<not> (\<exists>q. q \<noteq> [] \<and> lookup (tree w) (src_dir @ q) \<noteq> None \<and> fnmatch_tsx (last q))"
    have "p \<notin> set (rglob (tree w) src_dir)" for p
    proof
      assume "p \<in> set (rglob (tree w) src_dir)"
      then have "\<exists>q. p = src_dir @ q \<and> q \<noteq> [] \<and> lookup (tree w) p \<noteq> None \<and> fnmatch_tsx (last q)"
        by (simp only: rglob_iff[OF conjunct1[OF a]])
      then obtain q where "q \<noteq> []" "lookup (tree w) (src_dir @ q) \<noteq> None" "fnmatch_tsx (last q)"
        by auto
      with conjunct2[OF a] show False by blast
    qed
    then show ?thesis by (cases "rglob (tree w) src_dir") auto
  qed
  then show ?thesis using main_no_files[OF e, of ext] by (simp add: exit_status_def)
qed

text \<open>
  An empty working directory, and a source directory that holds only
  \<^verbatim>\<open>b.ts\<close>.
\<close>

theorem main_without_files_witness:
  "lookup (tree bare) src_dir = None \<and>
   exit_status (fst (main ascii_only bare)) = 0 \<and>
   wf_node (tree (project [(''b.ts'', plain_file (str ''dark:text-gray-700''))])) \<and>
   \<not> (\<exists>q. q \<noteq> [] \<and>
        lookup (tree (project [(''b.ts'', plain_file (str ''dark:text-gray-700''))])) (src_dir @ q) \<noteq> None \<and>
        fnmatch_tsx (last q)) \<and>
   rglob (tree (project [(''b.ts'', plain_file (str ''dark:text-gray-700''))])) src_dir = [] \<and>
   exit_status (fst (main ascii_only (project [(''b.ts'', plain_file (str ''dark:text-gray-700''))]))) = 0"
proof -
  let ?w = "project [(''b.ts'', plain_file (str ''dark:text-gray-700''))]"
  have a: "lookup (tree bare) src_dir = None" by code_simp
  have b: "wf_node (tree ?w)" by code_simp
  have l: "lookup (tree ?w) src_dir = Some (Dir [(''b.ts'', plain_file (str ''dark:text-gray-700''))])"
    by code_simp
  have n: "\<not> fnmatch_tsx ''b.ts''" by code_simp
  have c: "\<not> (\<exists>q. q \<noteq> [] \<and> lookup (tree ?w) (src_dir @ q) \<noteq> None \<and> fnmatch_tsx (last q))"
  proof
    assume "\<exists>q. q \<noteq> [] \<and> lookup (tree ?w) (src_dir @ q) \<noteq> None \<and> fnmatch_tsx (last q)"
    then obtain x xs where q: "lookup (tree ?w) (src_dir @ x # xs) \<noteq> None" "fnmatch_tsx (last (x # xs))"
      by (metis list.exhaust)
    from q(1) have "lookup (Dir [(''b.ts'', plain_file (str ''dark:text-gray-700''))]) (x # xs) \<noteq> None"
      by (simp add: lookup_append l)
    then have "x = ''b.ts'' \<and> xs = []"
      by (auto simp: plain_file_def lookup_File split: if_splits)
    with q(2) n show False by simp
  qed
  from a have a': "exit_status (fst (main ascii_only bare)) = 0"
    using main_without_files[of bare ascii_only] by blast
  from b c have c': "rglob (tree ?w) src_dir = [] \<and> exit_status (fst (main ascii_only ?w)) = 0"
    using main_without_files[of ?w ascii_only] by blast
  from a a' b c c' show ?thesis by blast
qed

subsection \<open>C4: a file without a match\<close>

text \<open>
  C4 as stated does not hold. A file with the two lines \<^verbatim>\<open>a\<close> and \<^verbatim>\<open>b\<close> separated by
  \<^verbatim>\<open>\r\n\<close> holds no token, yet after the call it holds the lines separated by
  \<^verbatim>\<open>\n\<close>: reading translates the line ending and writing does not restore it. The
  call returns \<open>None\<close>, not the count 0.
\<close>

theorem fix_without_match_counterexample:
  "lookup (tree (one_file (str ''a'' @ [13, 10] @ str ''b''))) (in_src ''a.tsx'') =
     Some (File True Stores (Utf8 (str ''a'' @ [13, 10] @ str ''b''))) \<and>
   replacements_made ascii_only (str ''a'' @ [13, 10] @ str ''b'') = 0 \<and>
   lookup (tree (snd (fix_dark_mode_contrast ascii_only (in_src ''a.tsx'')
      (one_file (str ''a'' @ [13, 10] @ str ''b''))))) (in_src ''a.tsx'') =
     Some (File True Stores (Utf8 (str ''a'' @ [10] @ str ''b''))) \<and>
   str ''a'' @ [10] @ str ''b'' \<noteq> str ''a'' @ [13, 10] @ str ''b'' \<and>
   fst (fix_dark_mode_contrast ascii_only (in_src ''a.tsx'')
      (one_file (str ''a'' @ [13, 10] @ str ''b''))) = Inr PyNone \<and>
   PyNone \<noteq> PyInt 0"
  by (intro conjI; code_simp)

text \<open>
  C4, amended. For every readable and writable UTF-8 file whose text contains no match
  and no carriage return: the call succeeds, the tree, and so the content of the file,
  is unchanged (the world differs only in the record of the two opens), the
  substitution makes 0 replacements, and the call returns \<open>None\<close>: no count is
  reported.
\<close>

theorem fix_without_match:
  assumes "lookup (tree w) p = Some (File True Stores (Utf8 s))"
    and "13 \<notin> set s"
    and "\<forall>j. \<not> match_here ext (drop j s)"
  shows "fix_dark_mode_contrast ext p w =
           (Inr PyNone, w\<lparr>opened := opened w @ [OpenRead p, OpenWrite p]\<rparr>) \<and>
         tree (snd (fix_dark_mode_contrast ext p w)) = tree w \<and>
         replacements_made ext s = 0"
proof -
  have u: "universal_newlines s = s"
    using assms(2) by (rule universal_newlines_id)
  have r: "re_sub ext (universal_newlines s) = s"
    using assms(3) by (simp add: u re_sub_no_match)
  from fix_readable_writable[OF assms(1), of ext] obtain t' where
    t': "store (tree w) p
          (File True Stores (Utf8 (write_newlines (re_sub ext (universal_newlines s))))) = Some t'"
    and f: "fix_dark_mode_contrast ext p w =
            (Inr PyNone, w\<lparr>tree := t', opened := opened w @ [OpenRead p, OpenWrite p]\<rparr>)"
    by blast
  have "t' = tree w"
    using t' store_same[OF assms(1)] by (simp add: write_newlines_id r)
  then have "fix_dark_mode_contrast ext p w =
           (Inr PyNone, w\<lparr>opened := opened w @ [OpenRead p, OpenWrite p]\<rparr>)"
    by (simp add: f)
  moreover have "replacements_made ext s = 0"
    using assms(3) by (simp add: replacements_made_card)
  ultimately show ?thesis by simp
qed

text \<open>
  A file with two lines separated by \<^verbatim>\<open>\n\<close> and without the token is left as it
  is.
\<close>

theorem fix_without_match_witness:
  "lookup (tree (one_file (str ''a'' @ [10] @ str ''b''))) (in_src ''a.tsx'') =
     Some (File True Stores (Utf8 (str ''a'' @ [10] @ str ''b''))) \<and>
   13 \<notin> set (str ''a'' @ [10] @ str ''b'') \<and>
   \<not> (\<exists>j. match_here ascii_only (drop j (str ''a'' @ [10] @ str ''b''))) \<and>
   fst (fix_dark_mode_contrast ascii_only (in_src ''a.tsx'')
      (one_file (str ''a'' @ [10] @ str ''b''))) = Inr PyNone \<and>
   tree (snd (fix_dark_mode_contrast ascii_only (in_src ''a.tsx'')
      (one_file (str ''a'' @ [10] @ str ''b'')))) =
   tree (one_file (str ''a'' @ [10] @ str ''b''))"
proof -
  let ?s = "str ''a'' @ [10] @ str ''b''"
  let ?w = "one_file ?s"
  have a: "lookup (tree ?w) (in_src ''a.tsx'') = Some (File True Stores (Utf8 ?s))"
    by code_simp
  have b: "13 \<notin> set ?s" by code_simp
  have "length ?s < 18" by code_simp
  then have c: "\<forall>j. \<not> match_here ascii_only (drop j ?s)"
    using short_no_match by blast
  note t = fix_without_match[OF a b c]
  from t have d: "fst (fix_dark_mode_contrast ascii_only (in_src ''a.tsx'') ?w) = Inr PyNone"
    by simp
  from t have e: "tree (snd (fix_dark_mode_contrast ascii_only (in_src ''a.tsx'') ?w)) = tree ?w"
    by blast
  from a b c d e show ?thesis by blast
qed

subsection \<open>C5: the replacement count\<close>

text \<open>
  C5 as stated does not hold: the function has no \<open>return\<close> statement. On a file with
  two occurrences of the token, where two replacements are made, the call returns
  \<open>None\<close> and not 2.
\<close>

theorem fix_returns_count_counterexample:
  "lookup (tree (one_file (str ''dark:text-gray-700 dark:text-gray-700'')))
      (in_src ''a.tsx'') =
     Some (File True Stores (Utf8 (str ''dark:text-gray-700 dark:text-gray-700''))) \<and>
   replacements_made ascii_only (str ''dark:text-gray-700 dark:text-gray-700'') = 2 \<and>
   fst (fix_dark_mode_contrast ascii_only (in_src ''a.tsx'')
      (one_file (str ''dark:text-gray-700 dark:text-gray-700''))) = Inr PyNone \<and>
   PyNone \<noteq> PyInt 2"
  by (intro conjI; code_simp)

text \<open>
  C5, amended. The call returns \<open>None\<close> whenever it returns, never a count; on a
  readable and writable UTF-8 file it succeeds and leaves the substituted text in the
  file. The number of replacements the substitution makes on a text, which is the number
  of characters it changes, equals the number of positions at which the pattern matches
  (the exact occurrences of the token); it is 0 exactly when the text is left unchanged,
  which is no error.
\<close>

theorem fix_returns_none:
  "(fst (fix_dark_mode_contrast ext p w) = Inr v \<longrightarrow> v = PyNone) \<and>
   (lookup (tree w) p = Some (File True Stores (Utf8 s)) \<longrightarrow>
      fst (fix_dark_mode_contrast ext p w) = Inr PyNone \<and>
      lookup (tree (snd (fix_dark_mode_contrast ext p w))) p =
        Some (File True Stores (Utf8 (re_sub ext (universal_newlines s))))) \<and>
   length (filter (\<lambda>(a, b). a \<noteq> b) (zip content (re_sub ext content))) =
     replacements_made ext content \<and>
   replacements_made ext content = card {j. match_here ext (drop j content)} \<and>
   (replacements_made ext content = 0) = (re_sub ext content = content)"
proof (intro conjI impI)
  assume "fst (fix_dark_mode_contrast ext p w) = Inr v"
  then show "v = PyNone" using fix_Inr by blast
next
  assume a: "lookup (tree w) p = Some (File True Stores (Utf8 s))"
  show "fst (fix_dark_mode_contrast ext p w) = Inr PyNone" by (rule fix_result(1)[OF a])
  show "lookup (tree (snd (fix_dark_mode_contrast ext p w))) p =
        Some (File True Stores (Utf8 (re_sub ext (universal_newlines s))))"
    by (rule fix_result(2)[OF a])
next
  show "length (filter (\<lambda>(a, b). a \<noteq> b) (zip content (re_sub ext content))) =
     replacements_made ext content" by (rule changed_positions)
  show "replacements_made ext content = card {j. match_here ext (drop j content)}"
    by (rule replacements_made_card)
  show "(replacements_made ext content = 0) = (re_sub ext content = content)"
  proof
    assume "replacements_made ext content = 0"
    then have "{j. match_here ext (drop j content)} = {}"
      by (simp add: replacements_made_card finite_matches)
    then have "\<forall>j. \<not> match_here ext (drop j content)" by blast
    then show "re_sub ext content = content" by (rule re_sub_no_match)
  next
    assume "re_sub ext content = content"
    then have "replacements_made ext content = replacements_made ext (re_sub ext content)" by simp
    then show "replacements_made ext content = 0" by (simp add: replacements_made_after)
  qed
qed

text \<open>
  The file with two occurrences: \<open>None\<close> is returned, both occurrences are
  replaced, and the pattern matches at two positions.
\<close>

theorem fix_returns_none_witness:
  "fst (fix_dark_mode_contrast ascii_only (in_src ''a.tsx'')
      (one_file (str ''dark:text-gray-700 dark:text-gray-700''))) = Inr PyNone \<and>
   lookup (tree (snd (fix_dark_mode_contrast ascii_only (in_src ''a.tsx'')
      (one_file (str ''dark:text-gray-700 dark:text-gray-700'')))))
      (in_src ''a.tsx'') =
     Some (File True Stores (Utf8 (str ''dark:text-gray-300 dark:text-gray-300''))) \<and>
   card {j. match_here ascii_only (drop j (str ''dark:text-gray-700 dark:text-gray-700''))} = 2"
proof -
  let ?s = "str ''dark:text-gray-700 dark:text-gray-700''"
  let ?w = "one_file ?s"
  have a: "lookup (tree ?w) (in_src ''a.tsx'') = Some (File True Stores (Utf8 ?s))"
    by code_simp
  have b: "re_sub ascii_only (universal_newlines ?s) = str ''dark:text-gray-300 dark:text-gray-300''"
    by code_simp
  have c: "replacements_made ascii_only ?s = 2"
    by code_simp
  from fix_returns_none[of ascii_only "in_src ''a.tsx''" ?w PyNone ?s ?s] a b c
  show ?thesis by simp
qed

subsection \<open>C6: the output of a run\<close>

text \<open>
  C6 as stated does not hold: the output does not depend on the number of files
  modified. Two runs, each over two files, print the same two lines, although the first
  run modifies one file and the second none.
\<close>

theorem main_summary_counterexample:
  "stdout (snd (main ascii_only (two_files (str ''dark:text-gray-700'')))) =
     [''Fixing dark mode contrast in 2 files...'', ''Dark mode contrast fixes applied!''] \<and>
   stdout (snd (main ascii_only (two_files (str ''other'')))) =
     [''Fixing dark mode contrast in 2 files...'', ''Dark mode contrast fixes applied!''] \<and>
   rglob (tree (two_files (str ''dark:text-gray-700''))) src_dir = [in_src ''a.tsx'', in_src ''b.tsx''] \<and>
   rglob (tree (two_files (str ''other''))) src_dir = [in_src ''a.tsx'', in_src ''b.tsx''] \<and>
   files_modified (two_files (str ''dark:text-gray-700''))
     (snd (main ascii_only (two_files (str ''dark:text-gray-700''))))
     [in_src ''a.tsx'', in_src ''b.tsx''] = 1 \<and>
   files_modified (two_files (str ''other''))
     (snd (main ascii_only (two_files (str ''other''))))
     [in_src ''a.tsx'', in_src ''b.tsx''] = 0"
proof -
  have a: "main ascii_only (two_files (str ''dark:text-gray-700'')) =
      (Inr PyNone,
       \<lparr>tree = tree (two_files (str ''dark:text-gray-300'')),
        stdout = [''Fixing dark mode contrast in 2 files...'', ''Dark mode contrast fixes applied!''],
        opened = [OpenRead (in_src ''a.tsx''), OpenWrite (in_src ''a.tsx''),
                  OpenRead (in_src ''b.tsx''), OpenWrite (in_src ''b.tsx'')]\<rparr>)"
    by code_simp
  have b: "main ascii_only (two_files (str ''other'')) =
      (Inr PyNone,
       \<lparr>tree = tree (two_files (str ''other'')),
        stdout = [''Fixing dark mode contrast in 2 files...'', ''Dark mode contrast fixes applied!''],
        opened = [OpenRead (in_src ''a.tsx''), OpenWrite (in_src ''a.tsx''),
                  OpenRead (in_src ''b.tsx''), OpenWrite (in_src ''b.tsx'')]\<rparr>)"
    by code_simp
  have c: "rglob (tree (two_files (str ''dark:text-gray-700''))) src_dir = [in_src ''a.tsx'', in_src ''b.tsx'']"
    "rglob (tree (two_files (str ''other''))) src_dir = [in_src ''a.tsx'', in_src ''b.tsx'']"
    by code_simp+
  have d: "files_modified (two_files (str ''dark:text-gray-700''))
     (snd (main ascii_only (two_files (str ''dark:text-gray-700''))))
     [in_src ''a.tsx'', in_src ''b.tsx''] = 1"
    unfolding a
    by (simp add: files_modified_def file_at_def two_files_def project_def in_src_def
        src_dir_def plain_file_def str_def)
  have e: "files_modified (two_files (str ''other''))
     (snd (main ascii_only (two_files (str ''other''))))
     [in_src ''a.tsx'', in_src ''b.tsx''] = 0"
    unfolding b
    by (simp add: files_modified_def)
  show ?thesis using c d e by (simp add: a b)
qed

text \<open>
  C6, amended. A run prints the line \<^verbatim>\<open>Fixing dark mode contrast in N files...\<close>,
  with \<open>N\<close> the number of enumerated files in decimal, before it processes them, and
  the fixed line \<^verbatim>\<open>Dark mode contrast fixes applied!\<close> after it has processed them all;
  when an exception ends the run only the first line is printed. Nothing else is
  printed: no number of modified files and no report for a file. \<open>main\<close> returns
  \<open>None\<close>.
\<close>

theorem main_output:
  "stdout (snd (main ext w)) =
     stdout w @ summary_line (length (rglob (tree w) src_dir)) #
       (case fst (main ext w) of Inl e \<Rightarrow> [] | Inr v \<Rightarrow> [''Dark mode contrast fixes applied!'']) \<and>
   summary_line n = ''Fixing dark mode contrast in '' @ decimal n @ '' files...'' \<and>
   (case fst (main ext w) of Inl e \<Rightarrow> True | Inr v \<Rightarrow> v = PyNone)"
proof -
  let ?w1 = "print (summary_line (length (rglob (tree w) src_dir))) w"
  obtain r w2 where f: "for_files ext (rglob (tree w) src_dir) ?w1 = (r, w2)"
    by (cases "for_files ext (rglob (tree w) src_dir) ?w1")
  have s: "stdout w2 = stdout w @ [summary_line (length (rglob (tree w) src_dir))]"
    using for_files_stdout[of ext "rglob (tree w) src_dir" ?w1] f by (simp add: print_def)
  have m: "main ext w =
      (case r of Inl e \<Rightarrow> (Inl e, w2)
       | Inr u \<Rightarrow> (Inr PyNone, print ''Dark mode contrast fixes applied!'' w2))"
    by (simp add: main_unfold f split: sum.splits)
  have p: "stdout (print ''Dark mode contrast fixes applied!'' w2) =
      stdout w2 @ [''Dark mode contrast fixes applied!'']"
    by (simp add: print_def)
  show ?thesis
    by (cases r) (simp_all add: m s p summary_line_def)
qed

text \<open>
  A run over one file.
\<close>

theorem main_output_witness:
  "stdout (snd (main ascii_only (one_file (str ''dark:text-gray-700'')))) =
     [''Fixing dark mode contrast in 1 files...'', ''Dark mode contrast fixes applied!'']"
proof -
  let ?w = "one_file (str ''dark:text-gray-700'')"
  have a: "rglob (tree ?w) src_dir = [in_src ''a.tsx'']" by code_simp
  have b: "fst (main ascii_only ?w) = Inr PyNone" by code_simp
  have c: "stdout ?w = []" by code_simp
  have d: "summary_line 1 = ''Fixing dark mode contrast in 1 files...''" by code_simp
  from main_output[of ascii_only ?w 1] show ?thesis
    unfolding a b c using d by simp
qed

subsection \<open>C7: idempotence\<close>



subsection \<open>C8: the extension filter\<close>

text \<open>
  C8 as stated does not hold: \<open>rglob\<close> yields entries of any kind, not only files.
  A source directory that holds the file \<^verbatim>\<open>a.tsx\<close> and the directory \<^verbatim>\<open>d.tsx\<close>
  is enumerated as both paths; the second is not a file, and the run ends with
  \<open>OSError\<close> when it opens the directory for reading.
\<close>

theorem rglob_directory_counterexample:
  "rglob (tree matching_directory) src_dir = [in_src ''a.tsx'', in_src ''d.tsx''] \<and>
   lookup (tree matching_directory) (in_src ''d.tsx'') =
     Some (Dir [(''e.ts'', plain_file (str ''plain''))]) \<and>
   file_at (tree matching_directory) (in_src ''d.tsx'') = None \<and>
   fnmatch_tsx ''d.tsx'' \<and>
   fst (main ascii_only matching_directory) = Inl OSError \<and>
   exit_status (fst (main ascii_only matching_directory)) = 1"
  by (intro conjI; code_simp)

text \<open>
  C8, amended. In a well-formed tree the enumeration returns exactly the paths below
  the root that exist and whose last name ends in \<^verbatim>\<open>.tsx\<close>: entries of any kind,
  as \<open>rglob\<close> yields them. The regular files among them are exactly the regular
  files below the root with such a name. A directory with such a name is enumerated
  too, and a run that enumerates one ends with an error and exit status 1. A path
  whose name does not match, and any path that is not enumerated, is neither opened
  for reading nor for writing by the run, and the file there is the same after the
  run as before.
\<close>

theorem rglob_extension_filter:
  assumes "wf_node (tree w)"
  shows "set (rglob (tree w) src_dir) =
           {src_dir @ q | q. q \<noteq> [] \<and> lookup (tree w) (src_dir @ q) \<noteq> None \<and> fnmatch_tsx (last q)} \<and>
         {p \<in> set (rglob (tree w) src_dir). file_at (tree w) p \<noteq> None} =
           {src_dir @ q | q. q \<noteq> [] \<and> file_at (tree w) (src_dir @ q) \<noteq> None \<and> fnmatch_tsx (last q)} \<and>
         ((\<exists>p \<in> set (rglob (tree w) src_dir). is_dir (tree w) p) \<longrightarrow>
            (\<exists>e. fst (main ext w) = Inl e) \<and> exit_status (fst (main ext w)) = 1) \<and>
         (\<forall>p. \<not> fnmatch_tsx (last p) \<or> p \<notin> set (rglob (tree w) src_dir) \<longrightarrow>
              file_at (tree (snd (main ext w))) p = file_at (tree w) p \<and>
              (OpenRead p \<in> set (opened (snd (main ext w)))) = (OpenRead p \<in> set (opened w)) \<and>
              (OpenWrite p \<in> set (opened (snd (main ext w)))) = (OpenWrite p \<in> set (opened w))) \<and>
         fnmatch_tsx n = suffix ''.tsx'' n"
proof (intro conjI allI impI)
  show e: "set (rglob (tree w) src_dir) =
      {src_dir @ q | q. q \<noteq> [] \<and> lookup (tree w) (src_dir @ q) \<noteq> None \<and> fnmatch_tsx (last q)}"
  proof (intro set_eqI iffI)
    fix p assume "p \<in> set (rglob (tree w) src_dir)"
    then have "\<exists>q. p = src_dir @ q \<and> q \<noteq> [] \<and> lookup (tree w) p \<noteq> None \<and> fnmatch_tsx (last q)"
      by (simp only: rglob_iff[OF assms])
    then show "p \<in> {src_dir @ q | q. q \<noteq> [] \<and> lookup (tree w) (src_dir @ q) \<noteq> None \<and> fnmatch_tsx (last q)}"
      by auto
  next
    fix p assume "p \<in> {src_dir @ q | q. q \<noteq> [] \<and> lookup (tree w) (src_dir @ q) \<noteq> None \<and> fnmatch_tsx (last q)}"
    then have "\<exists>q. p = src_dir @ q \<and> q \<noteq> [] \<and> lookup (tree w) p \<noteq> None \<and> fnmatch_tsx (last q)"
      by auto
    then show "p \<in> set (rglob (tree w) src_dir)"
      by (simp only: rglob_iff[OF assms])
  qed
  have fl: "file_at (tree w) p \<noteq> None \<Longrightarrow> lookup (tree w) p \<noteq> None" for p
    by (auto simp: file_at_def split: option.splits)
  show "{p \<in> set (rglob (tree w) src_dir). file_at (tree w) p \<noteq> None} =
      {src_dir @ q | q. q \<noteq> [] \<and> file_at (tree w) (src_dir @ q) \<noteq> None \<and> fnmatch_tsx (last q)}"
    unfolding e using fl by blast
next
  assume "\<exists>p \<in> set (rglob (tree w) src_dir). is_dir (tree w) p"
  then obtain p where p: "p \<in> set (rglob (tree w) src_dir)" "is_dir (tree w) p" by blast
  let ?w1 = "print (summary_line (length (rglob (tree w) src_dir))) w"
  have "is_dir (tree ?w1) p" using p(2) by (simp add: print_def)
  from for_files_hits_dir[OF p(1) this, of ext] obtain e where
    "fst (for_files ext (rglob (tree w) src_dir) ?w1) = Inl e" by blast
  from main_Inl[OF this] have m: "fst (main ext w) = Inl e" by simp
  then show "\<exists>e. fst (main ext w) = Inl e" by blast
  from m show "exit_status (fst (main ext w)) = 1" by (simp add: exit_status_def)
next
  fix p assume a: "\<not> fnmatch_tsx (last p) \<or> p \<notin> set (rglob (tree w) src_dir)"
  have n: "p \<notin> set (rglob (tree w) src_dir)"
  proof
    assume i: "p \<in> set (rglob (tree w) src_dir)"
    then obtain q where "q \<noteq> []" "p = src_dir @ q" "fnmatch_tsx (last q)"
      using rglob_sound by blast
    then have "fnmatch_tsx (last p)" by simp
    with a i show False by blast
  qed
  show "file_at (tree (snd (main ext w))) p = file_at (tree w) p"
    by (rule main_frame(1)[OF n])
  show "(OpenRead p \<in> set (opened (snd (main ext w)))) = (OpenRead p \<in> set (opened w))"
    by (rule main_frame(2)[OF n])
  show "(OpenWrite p \<in> set (opened (snd (main ext w)))) = (OpenWrite p \<in> set (opened w))"
    by (rule main_frame(3)[OF n])
next
  show "fnmatch_tsx n = suffix ''.tsx'' n" by (simp add: fnmatch_tsx_def)
qed

text \<open>
  With \<^verbatim>\<open>a.tsx\<close>, \<^verbatim>\<open>b.ts\<close> and \<^verbatim>\<open>c.tsx\<close> the enumeration is \<^verbatim>\<open>a.tsx\<close> and
  \<^verbatim>\<open>c.tsx\<close>; \<^verbatim>\<open>b.ts\<close> holds the token, keeps it, and is never opened. With the
  file \<^verbatim>\<open>a.tsx\<close> and the directory \<^verbatim>\<open>d.tsx\<close> the run ends with exit status 1.
\<close>

theorem rglob_extension_filter_witness:
  "wf_node (tree three_files) \<and>
   set (rglob (tree three_files) src_dir) = {in_src ''a.tsx'', in_src ''c.tsx''} \<and>
   {src_dir @ q | q. q \<noteq> [] \<and> lookup (tree three_files) (src_dir @ q) \<noteq> None \<and> fnmatch_tsx (last q)} =
     {in_src ''a.tsx'', in_src ''c.tsx''} \<and>
   \<not> fnmatch_tsx (last (in_src ''b.ts'')) \<and>
   file_at (tree (snd (main ascii_only three_files))) (in_src ''b.ts'') =
     Some (True, Stores, Utf8 (str ''dark:text-gray-700'')) \<and>
   OpenRead (in_src ''b.ts'') \<notin> set (opened (snd (main ascii_only three_files))) \<and>
   OpenWrite (in_src ''b.ts'') \<notin> set (opened (snd (main ascii_only three_files))) \<and>
   wf_node (tree matching_directory) \<and>
   in_src ''d.tsx'' \<in> set (rglob (tree matching_directory) src_dir) \<and>
   is_dir (tree matching_directory) (in_src ''d.tsx'') \<and>
   exit_status (fst (main ascii_only matching_directory)) = 1"
proof -
  have a: "wf_node (tree three_files)" by code_simp
  have b: "set (rglob (tree three_files) src_dir) = {in_src ''a.tsx'', in_src ''c.tsx''}"
    by code_simp
  have c: "\<not> fnmatch_tsx (last (in_src ''b.ts''))" by code_simp
  have d: "file_at (tree three_files) (in_src ''b.ts'') =
      Some (True, Stores, Utf8 (str ''dark:text-gray-700''))" by code_simp
  have e: "opened three_files = []" by code_simp
  have a2: "wf_node (tree matching_directory)" by code_simp
  have b2: "in_src ''d.tsx'' \<in> set (rglob (tree matching_directory) src_dir)" by code_simp
  have c2: "is_dir (tree matching_directory) (in_src ''d.tsx'')" by code_simp
  note t = rglob_extension_filter[OF a, of ascii_only "''b.ts''"]
  note t2 = rglob_extension_filter[OF a2, of ascii_only "''b.ts''"]
  from t b have s: "{src_dir @ q | q. q \<noteq> [] \<and> lookup (tree three_files) (src_dir @ q) \<noteq> None \<and>
      fnmatch_tsx (last q)} = {in_src ''a.tsx'', in_src ''c.tsx''}" by simp
  from t c have f: "file_at (tree (snd (main ascii_only three_files))) (in_src ''b.ts'') =
      file_at (tree three_files) (in_src ''b.ts'')"
    and g: "(OpenRead (in_src ''b.ts'') \<in> set (opened (snd (main ascii_only three_files)))) =
      (OpenRead (in_src ''b.ts'') \<in> set (opened three_files))"
    and h: "(OpenWrite (in_src ''b.ts'') \<in> set (opened (snd (main ascii_only three_files)))) =
      (OpenWrite (in_src ''b.ts'') \<in> set (opened three_files))"
    by blast+
  from t2 b2 c2 have x: "exit_status (fst (main ascii_only matching_directory)) = 1" by blast
  from a b c s f g h a2 b2 c2 x show ?thesis by (simp add: d e)
qed

subsection \<open>C9: the file is always written\<close>




subsection \<open>C10: what the boundary blocks\<close>

text \<open>
  C10. The boundary only blocks a word character right behind the token. An
  occurrence of the pattern followed by any character \<open>c\<close> stays as it is when
  \<open>c\<close> is a word character and becomes the replacement otherwise; on ASCII the word
  characters are the digits, the letters and the underscore, so the slash, the hyphen
  and the double quote do not block, and \<^verbatim>\<open>dark:text-gray-700/50\<close> becomes
  \<^verbatim>\<open>dark:text-gray-300/50\<close>.
\<close>

theorem boundary_blocks_only_word_characters:
  "(drop j s = pattern @ c # rest \<longrightarrow>
      take (length pattern) (drop j (re_sub ext s)) = (if is_word ext c then pattern else replacement)) \<and>
   (c < 128 \<longrightarrow> is_word ext c = (c \<in> {48..57} \<union> {65..90} \<union> {97..122} \<union> {95})) \<and>
   \<not> is_word ext (of_char CHR ''/'') \<and> \<not> is_word ext (of_char CHR ''-'') \<and>
   \<not> is_word ext (of_char CHR 0x22) \<and>
   re_sub ext (str ''dark:text-gray-700/50'') = str ''dark:text-gray-300/50''"
proof (intro conjI impI)
  assume "drop j s = pattern @ c # rest"
  then show "take (length pattern) (drop j (re_sub ext s)) = (if is_word ext c then pattern else replacement)"
    using re_sub_blocked re_sub_not_blocked by (simp add: length_pattern)
next
  assume "c < 128"
  then show "is_word ext c = (c \<in> {48..57} \<union> {65..90} \<union> {97..122} \<union> {95})"
    by (auto simp: is_word_def unicode_isalnum_def)
next
  show "re_sub ext (str ''dark:text-gray-700/50'') = str ''dark:text-gray-300/50''"
    by code_simp
qed (simp_all add: is_word_def unicode_isalnum_def)

text \<open>
  An occurrence followed by a hyphen is replaced; one followed by an underscore is
  kept.
\<close>

theorem boundary_blocks_only_word_characters_witness:
  "drop 4 (str ''<p: dark:text-gray-700-x'') = pattern @ of_char CHR ''-'' # str ''x'' \<and>
   take (length pattern) (drop 4 (re_sub (\<lambda>c. False) (str ''<p: dark:text-gray-700-x''))) = replacement \<and>
   drop 0 (str ''dark:text-gray-700_x'') = pattern @ of_char CHR ''_'' # str ''x'' \<and>
   take (length pattern) (drop 0 (re_sub (\<lambda>c. False) (str ''dark:text-gray-700_x''))) = pattern"
proof -
  have a: "drop 4 (str ''<p: dark:text-gray-700-x'') = pattern @ of_char CHR ''-'' # str ''x''"
    by (simp add: str_def pattern_def)
  have b: "drop 0 (str ''dark:text-gray-700_x'') = pattern @ of_char CHR ''_'' # str ''x''"
    by (simp add: str_def pattern_def)
  have c: "\<not> is_word (\<lambda>c. False) (of_char CHR ''-'')" "is_word (\<lambda>c. False) (of_char CHR ''_'')"
    by (simp_all add: is_word_def unicode_isalnum_def)
  from boundary_blocks_only_word_characters
    [of 4 "str ''<p: dark:text-gray-700-x''" "of_char CHR ''-''" "str ''x''" "\<lambda>c. False"]
    boundary_blocks_only_word_characters
    [of 0 "str ''dark:text-gray-700_x''" "of_char CHR ''_''" "str ''x''" "\<lambda>c. False"]
    a b c
  show ?thesis by simp
qed

end
